theory Spec2Isabelle
  imports Main
begin

section \<open>Key codec\<close>

text \<open>
  The seven encoder namespaces of \<^verbatim>\<open>keyGen\<close> in
  \<^verbatim>\<open>src/search/search-index/util.js\<close>, in the order in which the
  object literal lists them. JavaScript strings are modelled as \<^typ>\<open>string\<close>.
\<close>

datatype namespace = Domain | Tag | Url | Term | Title | Visit | Bookmark

fun namespace_name :: "namespace \<Rightarrow> string" where
  "namespace_name Domain = ''domain''"
| "namespace_name Tag = ''tag''"
| "namespace_name Url = ''url''"
| "namespace_name Term = ''term''"
| "namespace_name Title = ''title''"
| "namespace_name Visit = ''visit''"
| "namespace_name Bookmark = ''bookmark''"

text \<open>\<^verbatim>\<open>keyGen[ns](key)\<close>: the template literal \<^verbatim>\<open>`ns/${key}`\<close>.\<close>

fun keyGen :: "namespace \<Rightarrow> string \<Rightarrow> string" where
  "keyGen Domain key = ''domain/'' @ key"
| "keyGen Tag key = ''tag/'' @ key"
| "keyGen Url key = ''url/'' @ key"
| "keyGen Term key = ''term/'' @ key"
| "keyGen Title key = ''title/'' @ key"
| "keyGen Visit key = ''visit/'' @ key"
| "keyGen Bookmark key = ''bookmark/'' @ key"

text \<open>
  The alternatives of the regular expression
  \<^verbatim>\<open>/^(term|title|visit|url|domain|tag|bookmark)\//\<close>, in the order in
  which the matcher tries them.
\<close>

definition key_type_alternatives :: "string list" where
  "key_type_alternatives =
     [''term'', ''title'', ''visit'', ''url'', ''domain'', ''tag'', ''bookmark'']"

text \<open>\<^verbatim>\<open>String.prototype.startsWith\<close>.\<close>

fun startsWith :: "string \<Rightarrow> string \<Rightarrow> bool" where
  "startsWith s [] = True"
| "startsWith [] (p # ps) = False"
| "startsWith (c # cs) (p # ps) = (c = p \<and> startsWith cs ps)"

text \<open>
  Matching the anchored alternation at position 0: the first alternative that, followed
  by a slash, is a prefix of the key gives the match; its length is what
  \<^verbatim>\<open>replace\<close> removes. No alternative matching means no match.
\<close>

fun match_key_type :: "string list \<Rightarrow> string \<Rightarrow> nat option" where
  "match_key_type [] key = None"
| "match_key_type (alt # alts) key =
     (if startsWith key (alt @ ''/'') then Some (length (alt @ ''/''))
      else match_key_type alts key)"

text \<open>
  \<^verbatim>\<open>removeKeyType = key => key.replace(/^(term|...|bookmark)\//, '')\<close>: the
  single match at the start, if any, is replaced by the empty string; a key without a
  match is returned as it is.
\<close>

definition removeKeyType :: "string \<Rightarrow> string" where
  "removeKeyType key =
     (case match_key_type key_type_alternatives key of
        None \<Rightarrow> key
      | Some n \<Rightarrow> drop n key)"

section \<open>Term extraction\<close>

text \<open>\<^verbatim>\<open>String.prototype.endsWith\<close>.\<close>

definition endsWith :: "string \<Rightarrow> string \<Rightarrow> bool" where
  "endsWith s p = startsWith (rev s) (rev p)"

text \<open>
  \<^verbatim>\<open>extractContent\<close>. The built-ins \<^verbatim>\<open>String.prototype.split\<close>
  (whose separator is a string or a regular expression; the default separator
  \<^verbatim>\<open>DEFAULT_TERM_SEPARATOR\<close> is declared outside this module) and
  \<^verbatim>\<open>String.prototype.toLowerCase\<close> are parameters of the model, so that
  what is proved holds for every separator semantics and every case folding.
\<close>

definition extractContent ::
  "(string \<Rightarrow> 'sep \<Rightarrow> string list) \<Rightarrow> (string \<Rightarrow> string) \<Rightarrow>
   string \<Rightarrow> 'sep \<Rightarrow> namespace \<Rightarrow> string list" where
  "extractContent split toLowerCase content separator key =
     filter (\<lambda>term. \<not> endsWith term ''/'')
       (map (\<lambda>word. keyGen key (toLowerCase word)) (split content separator))"

text \<open>
  A concrete separator semantics for evaluation: \<^verbatim>\<open>split\<close> on a
  one-character string separator, which cuts at every occurrence and keeps the empty
  pieces.
\<close>

fun split_char :: "string \<Rightarrow> char \<Rightarrow> string list" where
  "split_char [] sep = [[]]"
| "split_char (c # cs) sep =
     (if c = sep then [] # split_char cs sep
      else (case split_char cs sep of
              [] \<Rightarrow> [[c]]
            | w # ws \<Rightarrow> (c # w) # ws))"

text \<open>Case folding of the ASCII letters, for evaluation on ASCII content.\<close>

definition lower_char :: "char \<Rightarrow> char" where
  "lower_char c =
     (case map_of (zip ''ABCDEFGHIJKLMNOPQRSTUVWXYZ'' ''abcdefghijklmnopqrstuvwxyz'') c of
        None \<Rightarrow> c
      | Some l \<Rightarrow> l)"

definition toLowerCase_ascii :: "string \<Rightarrow> string" where
  "toLowerCase_ascii s = map lower_char s"

section \<open>JavaScript values and Maps\<close>

text \<open>
  The values the index stores and returns: primitives, and flat objects whose properties
  hold primitives (own enumerable properties in insertion order). The number type is a
  parameter: no claim depends on how numbers are represented.
\<close>

datatype 'n jsprim = JUndefined | JNull | JBool bool | JNum 'n | JStr string

type_synonym 'n jsobject = "(string \<times> 'n jsprim) list"

datatype 'n jsval = Prim "'n jsprim" | Obj "'n jsobject"

text \<open>
  What the code can throw or reject with: a \<^verbatim>\<open>TypeError\<close> of the language,
  an \<^verbatim>\<open>Error\<close> created with a message, the store's error that carries the
  \<^verbatim>\<open>notFound\<close> flag, and any other error of the store.
\<close>

datatype js_error =
    TypeError
  | JsError string
  | NotFoundError
  | StoreError string

text \<open>
  A JavaScript \<^verbatim>\<open>Map\<close> is a list of entries in insertion order with one entry
  per key: \<^verbatim>\<open>set\<close> on a key that is present replaces the value where it
  stands, on a new key it appends. The same holds for the properties of an object.
\<close>

fun Map_set :: "('k \<times> 'v) list \<Rightarrow> 'k \<Rightarrow> 'v \<Rightarrow> ('k \<times> 'v) list" where
  "Map_set [] k v = [(k, v)]"
| "Map_set ((k', v') # m) k v =
     (if k' = k then (k, v) # m else (k', v') # Map_set m k v)"

definition Map_get :: "('k \<times> 'v) list \<Rightarrow> 'k \<Rightarrow> 'v option" where
  "Map_get m k = map_of m k"

definition Map_has :: "('k \<times> 'v) list \<Rightarrow> 'k \<Rightarrow> bool" where
  "Map_has m k = (map_of m k \<noteq> None)"

definition Map_size :: "('k \<times> 'v) list \<Rightarrow> nat" where
  "Map_size m = length m"

text \<open>\<^verbatim>\<open>new Map(entries)\<close>: the entries are set one after the other.\<close>

definition Map_new :: "('k \<times> 'v) list \<Rightarrow> ('k \<times> 'v) list" where
  "Map_new entries = fold (\<lambda>(k, v) m. Map_set m k v) entries []"

text \<open>Reading a property: \<^verbatim>\<open>undefined\<close> when the object does not have it.\<close>

definition get_prop :: "'n jsobject \<Rightarrow> string \<Rightarrow> 'n jsprim" where
  "get_prop obj name = (case map_of obj name of None \<Rightarrow> JUndefined | Some v \<Rightarrow> v)"

text \<open>The object spread \<^verbatim>\<open>{ ...base, ...more }\<close>.\<close>

definition spread :: "'n jsobject \<Rightarrow> 'n jsobject \<Rightarrow> 'n jsobject" where
  "spread base more = fold (\<lambda>(k, v) obj. Map_set obj k v) more base"

section \<open>The ordered key-value store\<close>

text \<open>
  A JavaScript string is a sequence of UTF-16 code units. It is represented here by the
  bytes of its UTF-8 encoding (a code unit that is half of no pair by the three bytes of
  its value), so that the ASCII characters the code looks for are single bytes.
  \<open>utf16_units\<close> reads the code units back from the bytes: one unit for a sequence of one,
  two or three bytes, the two halves of a pair for a sequence of four; a byte that starts
  no such sequence stands for itself.
\<close>

definition continuation :: "nat \<Rightarrow> bool" where
  "continuation b = (128 \<le> b \<and> b < 192)"

definition two_bytes :: "nat \<Rightarrow> nat \<Rightarrow> bool" where
  "two_bytes b0 b1 = (192 \<le> b0 \<and> b0 < 224 \<and> continuation b1)"

definition three_bytes :: "nat \<Rightarrow> nat \<Rightarrow> nat \<Rightarrow> bool" where
  "three_bytes b0 b1 b2 = (224 \<le> b0 \<and> b0 < 240 \<and> continuation b1 \<and> continuation b2)"

definition code_point4 :: "nat \<Rightarrow> nat \<Rightarrow> nat \<Rightarrow> nat \<Rightarrow> nat" where
  "code_point4 b0 b1 b2 b3 =
     (b0 - 240) * 262144 + (b1 - 128) * 4096 + (b2 - 128) * 64 + (b3 - 128)"

definition four_bytes :: "nat \<Rightarrow> nat \<Rightarrow> nat \<Rightarrow> nat \<Rightarrow> bool" where
  "four_bytes b0 b1 b2 b3 =
     (240 \<le> b0 \<and> b0 < 248 \<and> continuation b1 \<and> continuation b2 \<and> continuation b3 \<and>
      65536 \<le> code_point4 b0 b1 b2 b3 \<and> code_point4 b0 b1 b2 b3 < 1114112)"

definition unit2 :: "nat \<Rightarrow> nat \<Rightarrow> nat" where
  "unit2 b0 b1 = (b0 - 192) * 64 + (b1 - 128)"

definition unit3 :: "nat \<Rightarrow> nat \<Rightarrow> nat \<Rightarrow> nat" where
  "unit3 b0 b1 b2 = (b0 - 224) * 4096 + (b1 - 128) * 64 + (b2 - 128)"

definition high_half :: "nat \<Rightarrow> nat" where
  "high_half cp = 55296 + (cp - 65536) div 1024"

definition low_half :: "nat \<Rightarrow> nat" where
  "low_half cp = 56320 + (cp - 65536) mod 1024"

fun utf16_units :: "nat list \<Rightarrow> nat list" where
  "utf16_units (b0 # b1 # b2 # b3 # bs) =
     (if four_bytes b0 b1 b2 b3
      then high_half (code_point4 b0 b1 b2 b3) # low_half (code_point4 b0 b1 b2 b3) #
           utf16_units bs
      else if three_bytes b0 b1 b2 then unit3 b0 b1 b2 # utf16_units (b3 # bs)
      else if two_bytes b0 b1 then unit2 b0 b1 # utf16_units (b2 # b3 # bs)
      else b0 # utf16_units (b1 # b2 # b3 # bs))"
| "utf16_units [b0, b1, b2] =
     (if three_bytes b0 b1 b2 then [unit3 b0 b1 b2]
      else if two_bytes b0 b1 then unit2 b0 b1 # utf16_units [b2]
      else b0 # utf16_units [b1, b2])"
| "utf16_units [b0, b1] =
     (if two_bytes b0 b1 then [unit2 b0 b1] else b0 # utf16_units [b1])"
| "utf16_units [b0] = [b0]"
| "utf16_units [] = []"

definition code_units :: "string \<Rightarrow> nat list" where
  "code_units s = utf16_units (map of_char s)"

text \<open>
  Modelled from the spec: the store behind \<^verbatim>\<open>index.db\<close>, which is created
  outside this module. A store is the list of its entries in ascending key order. Keys
  compare as strings do in the language, code unit by code unit; in this order U+FFFF,
  which the source appends to a prefix as the upper bound of a range, is the greatest
  character.
\<close>

type_synonym 'v db = "(string \<times> 'v) list"

fun units_le :: "nat list \<Rightarrow> nat list \<Rightarrow> bool" where
  "units_le [] ys = True"
| "units_le (x # xs) [] = False"
| "units_le (x # xs) (y # ys) = (x < y \<or> (x = y \<and> units_le xs ys))"

definition key_le :: "string \<Rightarrow> string \<Rightarrow> bool" where
  "key_le a b = units_le (code_units a) (code_units b)"

record iteratorOpts =
  gte :: "string option"
  lte :: "string option"
  reverse :: bool

definition in_bounds :: "iteratorOpts \<Rightarrow> string \<Rightarrow> bool" where
  "in_bounds opts key =
     ((case gte opts of None \<Rightarrow> True | Some lo \<Rightarrow> key_le lo key) \<and>
      (case lte opts of None \<Rightarrow> True | Some hi \<Rightarrow> key_le key hi))"

text \<open>
  Modelled from the spec: \<^verbatim>\<open>createReadStream({gte, lte, reverse})\<close> of the
  store delivers, one \<^verbatim>\<open>data\<close> event per entry, the entries whose key lies
  within the bounds, ascending, or descending when \<^verbatim>\<open>reverse\<close> is set.
\<close>

definition createReadStream :: "'v db \<Rightarrow> iteratorOpts \<Rightarrow> (string \<times> 'v) list" where
  "createReadStream db opts =
     (let es = filter (\<lambda>(key, value). in_bounds opts key) db
      in if reverse opts then rev es else es)"

text \<open>
  The string \<^verbatim>\<open>'\uffff'\<close> of the source: the one code unit 65535, as the three
  bytes of its UTF-8 encoding.
\<close>

definition max_sort_char :: string where
  "max_sort_char = [CHR 0xEF, CHR 0xBF, CHR 0xBF]"

section \<open>Range lookups\<close>

text \<open>
  \<^verbatim>\<open>termRangeLookup(termKey, termsSet)\<close>. The set of terms is the list of its
  members in insertion order. The result \<^verbatim>\<open>Map\<close> starts with every term
  mapped to \<^verbatim>\<open>null\<close>; each \<^verbatim>\<open>data\<close> event whose key is in the set
  overwrites that term's value; \<^verbatim>\<open>end\<close> resolves with the \<^verbatim>\<open>Map\<close>.
\<close>

definition termRangeLookup ::
  "'n jsval db \<Rightarrow> string \<Rightarrow> string list \<Rightarrow> (string \<times> 'n jsval) list" where
  "termRangeLookup db termKey termsSet =
     (let results = Map_new (map (\<lambda>key. (key, Prim JNull)) termsSet)
      in fold (\<lambda>(key, value) results.
                 if key \<in> set termsSet then Map_set results key value else results)
           (createReadStream db
              \<lparr>gte = Some termKey, lte = Some (termKey @ max_sort_char), reverse = False\<rparr>)
           results)"

text \<open>
  \<^verbatim>\<open>normalizeTimestampVals\<close>. A string is a bare page id. Anything else is
  destructured with \<^verbatim>\<open>const { pageId, ...meta } = value\<close>, which throws a
  \<^verbatim>\<open>TypeError\<close> on \<^verbatim>\<open>null\<close> and \<^verbatim>\<open>undefined\<close>, finds no
  property on the other primitives, and on an object takes the property
  \<^verbatim>\<open>pageId\<close> and leaves the remaining properties as \<^verbatim>\<open>meta\<close>.
\<close>

fun normalizeTimestampVals :: "'n jsval \<Rightarrow> js_error + ('n jsprim \<times> 'n jsobject)" where
  "normalizeTimestampVals (Prim (JStr s)) = Inr (JStr s, [])"
| "normalizeTimestampVals (Prim JUndefined) = Inl TypeError"
| "normalizeTimestampVals (Prim JNull) = Inl TypeError"
| "normalizeTimestampVals (Prim (JBool b)) = Inr (JUndefined, [])"
| "normalizeTimestampVals (Prim (JNum n)) = Inr (JUndefined, [])"
| "normalizeTimestampVals (Obj obj) =
     Inr (get_prop obj ''pageId'', filter (\<lambda>(k, v). k \<noteq> ''pageId'') obj)"

text \<open>
  \<^verbatim>\<open>rangeLookup\<close>: every entry of the ascending scan sets its key to the
  normalized page id.
\<close>

fun rangeScan ::
  "(string \<times> 'n jsval) list \<Rightarrow> (string \<times> 'n jsprim) list \<Rightarrow>
   js_error + (string \<times> 'n jsprim) list" where
  "rangeScan [] data = Inr data"
| "rangeScan ((key, value) # rest) data =
     (case normalizeTimestampVals value of
        Inl e \<Rightarrow> Inl e
      | Inr (pageId, meta) \<Rightarrow> rangeScan rest (Map_set data key pageId))"

definition rangeLookup ::
  "'n jsval db \<Rightarrow> iteratorOpts \<Rightarrow> js_error + (string \<times> 'n jsprim) list" where
  "rangeLookup db iteratorOpts = rangeScan (createReadStream db iteratorOpts) []"

text \<open>
  \<^verbatim>\<open>reverseRangeLookup({ limit = Infinity, ...iteratorOpts })\<close>. The limit is
  a count or \<^verbatim>\<open>Infinity\<close> (\<open>None\<close>). \<open>reverseScan\<close> is the
  \<^verbatim>\<open>data\<close> handler run over the entries the stream delivers: it first
  compares \<^verbatim>\<open>data.size\<close> with the limit, and when the limit is reached it
  destroys the stream and resolves, so no later entry is delivered; otherwise it
  normalizes the value and records the page id unless \<^verbatim>\<open>data\<close> has it. When
  the stream runs out, \<^verbatim>\<open>end\<close> resolves. A \<^verbatim>\<open>TypeError\<close> thrown by the
  normalization leaves the handler before anything is recorded or resolved: the
  model's result is then that error. Next to the \<^verbatim>\<open>Map\<close> the
  model returns the number of \<^verbatim>\<open>data\<close> events the stream delivered, which
  is what a counting wrapper around the store's iterator observes.
\<close>

definition limit_reached :: "nat option \<Rightarrow> nat \<Rightarrow> bool" where
  "limit_reached limit n = (case limit of None \<Rightarrow> False | Some l \<Rightarrow> l \<le> n)"

fun reverseScan ::
  "nat option \<Rightarrow> (string \<times> 'n jsval) list \<Rightarrow> ('n jsprim \<times> 'n jsobject) list \<Rightarrow> nat \<Rightarrow>
   js_error + (('n jsprim \<times> 'n jsobject) list \<times> nat)" where
  "reverseScan limit [] data delivered = Inr (data, delivered)"
| "reverseScan limit ((key, value) # rest) data delivered =
     (if limit_reached limit (Map_size data) then Inr (data, Suc delivered)
      else (case normalizeTimestampVals value of
              Inl e \<Rightarrow> Inl e
            | Inr (pageId, meta) \<Rightarrow>
                reverseScan limit rest
                  (if \<not> Map_has data pageId
                   then Map_set data pageId
                          (spread [(''latest'', JStr (removeKeyType key))] meta)
                   else data)
                  (Suc delivered)))"

definition reverseRangeLookup ::
  "'n jsval db \<Rightarrow> nat option \<Rightarrow> iteratorOpts \<Rightarrow>
   js_error + (('n jsprim \<times> 'n jsobject) list \<times> nat)" where
  "reverseRangeLookup db limit iteratorOpts =
     reverseScan limit (createReadStream db (iteratorOpts\<lparr>reverse := True\<rparr>)) [] 0"

text \<open>
  A store for evaluation: two term postings, the second under a key with a character
  outside the basic plane (U+1F600, the pair of code units 55357 and 56832), and one
  title posting.
\<close>

definition example_terms :: "int jsval db" where
  "example_terms =
     [(''term/foo'', Prim (JStr ''X'')),
      (''term/'' @ [CHR 0xF0, CHR 0x9F, CHR 0x98, CHR 0x80], Prim (JStr ''Z'')),
      (''title/bar'', Prim (JStr ''Y''))]"

section \<open>What the reverse lookup is expected to return\<close>

text \<open>
  The notions in which the reverse lookup is specified: the page id a stored value
  normalizes to, the page ids of a scan in scan order, the first occurrence of each
  element of a list, the object recorded for the first entry of a scan that carries a
  page id, and a list cut at the limit.
\<close>

definition pageId_of :: "'n jsval \<Rightarrow> 'n jsprim" where
  "pageId_of value =
     (case normalizeTimestampVals value of Inl e \<Rightarrow> JUndefined | Inr (pageId, meta) \<Rightarrow> pageId)"

fun first_occurrences :: "'a list \<Rightarrow> 'a list" where
  "first_occurrences [] = []"
| "first_occurrences (x # xs) = x # first_occurrences (filter (\<lambda>y. y \<noteq> x) xs)"

definition scanned_pageIds :: "(string \<times> 'n jsval) list \<Rightarrow> 'n jsprim list" where
  "scanned_pageIds es = map (\<lambda>(key, value). pageId_of value) es"

definition first_recorded ::
  "(string \<times> 'n jsval) list \<Rightarrow> 'n jsprim \<Rightarrow> 'n jsobject \<Rightarrow> bool" where
  "first_recorded es pageId obj \<longleftrightarrow>
     (\<exists>pre key value meta post.
        es = pre @ (key, value) # post \<and>
        pageId \<notin> set (scanned_pageIds pre) \<and>
        normalizeTimestampVals value = Inr (pageId, meta) \<and>
        obj = spread [(''latest'', JStr (removeKeyType key))] meta)"

definition within_limit :: "nat option \<Rightarrow> 'a list \<Rightarrow> 'a list" where
  "within_limit limit xs = (case limit of None \<Rightarrow> xs | Some l \<Rightarrow> take l xs)"

text \<open>
  The size of the \<^verbatim>\<open>Map\<close> once the handler has recorded the first \<open>j\<close>
  entries of a scan, starting from \<open>data\<close>: the entries of \<open>data\<close> and the distinct new
  page ids among those entries.
\<close>

definition size_after ::
  "('n jsprim \<times> 'n jsobject) list \<Rightarrow> (string \<times> 'n jsval) list \<Rightarrow> nat \<Rightarrow> nat" where
  "size_after data es j =
     length data +
     length (first_occurrences
       (filter (\<lambda>p. p \<notin> set (map fst data)) (scanned_pageIds (take j es))))"

text \<open>A store for evaluation: five visits of three pages.\<close>

definition example_visits :: "int jsval db" where
  "example_visits =
     [(''visit/1'', Prim (JStr ''c'')),
      (''visit/2'', Prim (JStr ''b'')),
      (''visit/3'', Prim (JStr ''a'')),
      (''visit/4'', Prim (JStr ''a'')),
      (''visit/5'', Obj [(''pageId'', JStr ''a''), (''duration'', JNum 30)])]"

definition example_bounds :: iteratorOpts where
  "example_bounds = \<lparr>gte = Some ''visit/0'', lte = Some ''visit/9'', reverse = False\<rparr>"

text \<open>
  A store for evaluation: two visits of two pages above a visit whose stored value is
  \<^verbatim>\<open>null\<close>.
\<close>

definition example_null_visit :: "int jsval db" where
  "example_null_visit =
     [(''visit/1'', Prim JNull),
      (''visit/2'', Prim (JStr ''b'')),
      (''visit/3'', Prim (JStr ''a''))]"

section \<open>Point lookups\<close>

text \<open>
  The point lookup \<^verbatim>\<open>index.get(key, { asBuffer })\<close> belongs to the store, which
  is created outside this module; it is a parameter \<open>get\<close> of the model, which
  resolves with the stored value or rejects with an error.
\<close>

type_synonym 'n index_get = "string \<Rightarrow> bool \<Rightarrow> js_error + 'n jsval"

text \<open>The \<^verbatim>\<open>notFound\<close> flag of an error.\<close>

definition notFound :: "js_error \<Rightarrow> bool" where
  "notFound error = (error = NotFoundError)"

text \<open>
  The options object of the lookups; \<open>None\<close> is a property that is absent.
\<close>

record 'n lookupOpts =
  defaultValue :: "'n jsval option"
  asBuffer :: "bool option"
  concurrency :: "nat option"

definition defLookupOpts :: "'n lookupOpts" where
  "defLookupOpts =
     \<lparr>defaultValue = Some (Prim JNull), asBuffer = Some False, concurrency = Some 5\<rparr>"

text \<open>
  The destructuring defaults \<^verbatim>\<open>{ defaultValue = null, asBuffer = false }\<close> and
  \<^verbatim>\<open>concurrency = 5\<close>: a default applies when the property is absent or
  \<^verbatim>\<open>undefined\<close>.
\<close>

definition defaultValue_of :: "'n lookupOpts \<Rightarrow> 'n jsval" where
  "defaultValue_of opts =
     (case defaultValue opts of
        None \<Rightarrow> Prim JNull
      | Some v \<Rightarrow> if v = Prim JUndefined then Prim JNull else v)"

definition asBuffer_of :: "'n lookupOpts \<Rightarrow> bool" where
  "asBuffer_of opts = (case asBuffer opts of None \<Rightarrow> False | Some b \<Rightarrow> b)"

definition concurrency_of :: "'n lookupOpts \<Rightarrow> nat" where
  "concurrency_of opts = (case concurrency opts of None \<Rightarrow> 5 | Some c \<Rightarrow> c)"

text \<open>
  \<^verbatim>\<open>initSingleLookup(opts)(key)\<close>; the options argument itself defaults to
  \<^verbatim>\<open>defLookupOpts\<close> when it is not given (\<open>None\<close>).
\<close>

definition given_or_default :: "'n lookupOpts option \<Rightarrow> 'n lookupOpts" where
  "given_or_default opts = (case opts of None \<Rightarrow> defLookupOpts | Some given \<Rightarrow> given)"

definition initSingleLookup ::
  "'n index_get \<Rightarrow> 'n lookupOpts option \<Rightarrow> string \<Rightarrow> js_error + 'n jsval" where
  "initSingleLookup get opts key =
     (let opts' = given_or_default opts
      in case get key (asBuffer_of opts') of
           Inr v \<Rightarrow> Inr v
         | Inl error \<Rightarrow> if notFound error then Inr (defaultValue_of opts') else Inl error)"

text \<open>The comparison \<^verbatim>\<open>x == null\<close>, true of \<^verbatim>\<open>null\<close> and \<^verbatim>\<open>undefined\<close>.\<close>

definition loosely_null :: "'n jsval \<Rightarrow> bool" where
  "loosely_null v = (v = Prim JNull \<or> v = Prim JUndefined)"

definition no_document_message :: "string \<Rightarrow> string" where
  "no_document_message pageId =
     ''No document exists in reverse page index for the supplied page ID: '' @ pageId"

text \<open>\<^verbatim>\<open>fetchExistingPage(pageId)\<close>.\<close>

definition fetchExistingPage :: "'n index_get \<Rightarrow> string \<Rightarrow> js_error + 'n jsval" where
  "fetchExistingPage get pageId =
     (case initSingleLookup get None pageId of
        Inl error \<Rightarrow> Inl error
      | Inr reverseIndexDoc \<Rightarrow>
          if loosely_null reverseIndexDoc then Inl (JsError (no_document_message pageId))
          else Inr reverseIndexDoc)"

text \<open>
  \<^verbatim>\<open>promiseLimit(concurrency).map(keys, async key => [key, await singleLookup(key)])\<close>:
  the entries in the order of the keys when every lookup resolves, and a rejection when
  one rejects. The limiter of the library \<^verbatim>\<open>promise-limit\<close> bounds how many
  lookups are in flight, so the concurrency level does not change the result. Lookups
  that would reject do so here in key order; under the limiter the first to reject in
  time wins.
\<close>

fun lookup_entries ::
  "nat \<Rightarrow> (string \<Rightarrow> js_error + 'v) \<Rightarrow> string list \<Rightarrow> js_error + (string \<times> 'v) list" where
  "lookup_entries limit singleLookup [] = Inr []"
| "lookup_entries limit singleLookup (key # keys) =
     (case singleLookup key of
        Inl error \<Rightarrow> Inl error
      | Inr v \<Rightarrow>
          (case lookup_entries limit singleLookup keys of
             Inl error \<Rightarrow> Inl error
           | Inr entries \<Rightarrow> Inr ((key, v) # entries)))"

text \<open>The argument of the batched lookup: one key, or an array of keys.\<close>

datatype lookup_keys = SingleKey string | KeyArray "string list"

text \<open>\<^verbatim>\<open>initLookupByKeys(opts)(keys)\<close>.\<close>

definition initLookupByKeys ::
  "'n index_get \<Rightarrow> 'n lookupOpts option \<Rightarrow> lookup_keys \<Rightarrow>
   js_error + (string \<times> 'n jsval) list" where
  "initLookupByKeys get opts keys =
     (let opts' = given_or_default opts;
          singleLookup = initSingleLookup get
            (Some \<lparr>defaultValue = Some (defaultValue_of opts'),
                   asBuffer = Some (asBuffer_of opts'), concurrency = None\<rparr>)
      in case keys of
           SingleKey key \<Rightarrow>
             (case singleLookup key of
                Inl error \<Rightarrow> Inl error
              | Inr v \<Rightarrow> Inr (Map_new [(key, v)]))
         | KeyArray ks \<Rightarrow>
             (case lookup_entries (concurrency_of opts') singleLookup ks of
                Inl error \<Rightarrow> Inl error
              | Inr entries \<Rightarrow> Inr (Map_new entries)))"

text \<open>A store for evaluation: \<open>get\<close> on a list of entries, with no failure but not-found.\<close>

definition get_from :: "(string \<times> 'n jsval) list \<Rightarrow> 'n index_get" where
  "get_from db key buffer =
     (case map_of db key of None \<Rightarrow> Inl NotFoundError | Some v \<Rightarrow> Inr v)"

text \<open>The same, with one key whose lookup fails with an I/O error.\<close>

definition get_failing :: "string \<Rightarrow> (string \<times> 'n jsval) list \<Rightarrow> 'n index_get" where
  "get_failing bad db key buffer =
     (if key = bad then Inl (StoreError ''IO'') else get_from db key buffer)"

definition example_pages :: "int jsval db" where
  "example_pages = [(''page/x'', Obj [(''url'', JStr ''example.com'')])]"

section \<open>Latest visit or bookmark of a document\<close>

text \<open>
  A lookup document: the \<^verbatim>\<open>Set\<close>s of visit and bookmark keys as the lists of
  their members in insertion order, and the other own properties of the object.
\<close>

record 'n indexLookupDoc =
  visits :: "string list"
  bookmarks :: "string list"
  props :: "'n jsobject"

text \<open>Indexing an array: \<^verbatim>\<open>undefined\<close> (\<open>None\<close>) outside its range.\<close>

definition array_at :: "'a list \<Rightarrow> int \<Rightarrow> 'a option" where
  "array_at xs i = (if 0 \<le> i \<and> i < int (length xs) then Some (xs ! nat i) else None)"

text \<open>
  \<^verbatim>\<open>getLatestVisitOrBookmark\<close>: \<^verbatim>\<open>!visits.size\<close> holds when the set of
  visits is empty.
\<close>

definition getLatestVisitOrBookmark :: "'n indexLookupDoc \<Rightarrow> string option" where
  "getLatestVisitOrBookmark doc =
     (if length (visits doc) = 0
      then array_at (bookmarks doc) (int (length (bookmarks doc)) - 1)
      else array_at (visits doc) (int (length (visits doc)) - 1))"

text \<open>
  \<^verbatim>\<open>augmentIndexLookupDoc\<close>: \<^verbatim>\<open>removeKeyType(undefined)\<close> calls
  \<^verbatim>\<open>replace\<close> on \<^verbatim>\<open>undefined\<close>, which throws a \<^verbatim>\<open>TypeError\<close>;
  otherwise the result is the object \<^verbatim>\<open>{ ...doc, latest }\<close>.
\<close>

definition augmentIndexLookupDoc :: "'n indexLookupDoc \<Rightarrow> js_error + 'n indexLookupDoc" where
  "augmentIndexLookupDoc doc =
     (case getLatestVisitOrBookmark doc of
        None \<Rightarrow> Inl TypeError
      | Some key \<Rightarrow>
          Inr (doc\<lparr>props := Map_set (props doc) ''latest'' (JStr (removeKeyType key))\<rparr>))"

definition example_doc :: "int indexLookupDoc" where
  "example_doc =
     \<lparr>visits = [''visit/1500'', ''visit/1700''], bookmarks = [''bookmark/1900''],
      props = [(''url'', JStr ''example.com'')]\<rparr>"

section \<open>Score boosting\<close>

text \<open>
  The number operations of the language that \<^verbatim>\<open>boostScores\<close> uses are
  parameters of the model: the unary plus, \<^verbatim>\<open>Number.isNaN\<close>, strict equality,
  number literals, multiplication, addition and \<^verbatim>\<open>toFixed()\<close>.
\<close>

record 'n number_ops =
  ToNumber :: "'n jsprim \<Rightarrow> 'n"
  isNaN :: "'n \<Rightarrow> bool"
  strict_equal :: "'n \<Rightarrow> 'n \<Rightarrow> bool"
  literal :: "nat \<Rightarrow> 'n"
  multiply :: "'n \<Rightarrow> 'n \<Rightarrow> 'n"
  add :: "'n \<Rightarrow> 'n \<Rightarrow> 'n"
  toFixed :: "'n \<Rightarrow> string"








section \<open>The write serializer\<close>

text \<open>
  An async operation on the index, as far as the queue can observe it: when it is
  invoked it runs up to its first suspension, reading the shared state into its own
  (\<open>begin_fn\<close>); when its promise settles it has written the shared state and resolves
  with a value or rejects with an error (\<open>finish_fn\<close>). Between the two, other work
  can run.
\<close>

record ('a, 'l, 's, 'e, 'r) async_fn =
  begin_fn :: "'a \<Rightarrow> 's \<Rightarrow> 'l"
  finish_fn :: "'l \<Rightarrow> 's \<Rightarrow> 's \<times> ('e + 'r)"

text \<open>How the promise of one call of the wrapped function ended.\<close>

datatype ('e, 'r) settlement = Resolved 'r | Rejected 'e

text \<open>
  A unit of work on the queue: the thunk
  \<^verbatim>\<open>() => fn(...args).then(resolve).catch(reject)\<close>, which holds the wrapped
  operation, the arguments of its call and the \<^verbatim>\<open>resolve\<close> and
  \<^verbatim>\<open>reject\<close> of that call's promise, here the number of the call.
\<close>

record ('a, 'l, 's, 'e, 'r) job =
  promise :: nat
  job_fn :: "('a, 'l, 's, 'e, 'r) async_fn"
  job_args :: 'a

text \<open>
  Modelled from the spec: \<^verbatim>\<open>indexQueue\<close>, which is created outside this
  module. The spec describes it as a single shared FIFO queue that lets at most one unit
  of work execute at a time: \<open>pending\<close> holds the units pushed and not yet started, in
  order, and \<open>in_flight\<close> the units started and not yet finished, each with the state of
  its invocation. The rest of the state records what an observer sees: the settlements
  of the callers' promises in the order in which they happen, the shared state the
  operations work on, and the operation and arguments of every call so far.
\<close>

record ('a, 'l, 's, 'e, 'r) serializer =
  pending :: "('a, 'l, 's, 'e, 'r) job list"
  in_flight :: "(('a, 'l, 's, 'e, 'r) job \<times> 'l) list"
  settled :: "(nat \<times> ('e, 'r) settlement) list"
  shared :: 's
  calls :: "(('a, 'l, 's, 'e, 'r) async_fn \<times> 'a) list"

definition idle :: "'s \<Rightarrow> ('a, 'l, 's, 'e, 'r) serializer" where
  "idle s0 = \<lparr>pending = [], in_flight = [], settled = [], shared = s0, calls = []\<rparr>"

text \<open>
  \<^verbatim>\<open>makeIndexFnConcSafe(fn)(...args)\<close>: a new promise is created and the thunk
  is pushed on the queue.
\<close>

definition makeIndexFnConcSafe ::
  "('a, 'l, 's, 'e, 'r) async_fn \<Rightarrow> 'a \<Rightarrow> ('a, 'l, 's, 'e, 'r) serializer \<Rightarrow>
   ('a, 'l, 's, 'e, 'r) serializer" where
  "makeIndexFnConcSafe fn args q =
     q\<lparr>pending := pending q @
         [\<lparr>promise = length (calls q), job_fn = fn, job_args = args\<rparr>],
       calls := calls q @ [(fn, args)]\<rparr>"

text \<open>
  Modelled from the spec: the queue starts the unit at its head only when no unit is in
  flight. Starting a unit runs the thunk, which invokes its operation on its arguments.
\<close>

definition start_next ::
  "('a, 'l, 's, 'e, 'r) serializer \<Rightarrow> ('a, 'l, 's, 'e, 'r) serializer" where
  "start_next q =
     (case pending q of
        [] \<Rightarrow> q
      | j # js \<Rightarrow>
          if in_flight q = []
          then q\<lparr>pending := js, in_flight := [(j, begin_fn (job_fn j) (job_args j) (shared q))]\<rparr>
          else q)"

text \<open>
  The promise of the invocation in flight settles: \<^verbatim>\<open>.then(resolve)\<close> resolves
  the caller's promise with the value, \<^verbatim>\<open>.catch(reject)\<close> rejects it with the
  error, and the unit of work is finished either way.
\<close>

definition settle ::
  "('a, 'l, 's, 'e, 'r) serializer \<Rightarrow> ('a, 'l, 's, 'e, 'r) serializer" where
  "settle q =
     (case in_flight q of
        [] \<Rightarrow> q
      | (j, l) # others \<Rightarrow>
          (case finish_fn (job_fn j) l (shared q) of
             (s', Inr result) \<Rightarrow>
               q\<lparr>in_flight := others, shared := s',
                 settled := settled q @ [(promise j, Resolved result)]\<rparr>
           | (s', Inl error) \<Rightarrow>
               q\<lparr>in_flight := others, shared := s',
                 settled := settled q @ [(promise j, Rejected error)]\<rparr>))"

text \<open>
  What can happen, in any order and any number of times: a caller calls the wrapped
  function, the queue starts a unit, the invocation in flight settles.
\<close>

datatype ('a, 'l, 's, 'e, 'r) event =
  Call "('a, 'l, 's, 'e, 'r) async_fn" 'a | Start | Settle

fun step ::
  "('a, 'l, 's, 'e, 'r) serializer \<Rightarrow> ('a, 'l, 's, 'e, 'r) event \<Rightarrow>
   ('a, 'l, 's, 'e, 'r) serializer" where
  "step q (Call fn args) = makeIndexFnConcSafe fn args q"
| "step q Start = start_next q"
| "step q Settle = settle q"

definition run ::
  "'s \<Rightarrow> ('a, 'l, 's, 'e, 'r) event list \<Rightarrow> ('a, 'l, 's, 'e, 'r) serializer" where
  "run s0 events = fold (\<lambda>event q. step q event) events (idle s0)"

text \<open>
  The reference: the operations invoked one after the other, each running from its
  invocation to its settlement with nothing in between.
\<close>

definition outcome_of :: "'e + 'r \<Rightarrow> ('e, 'r) settlement" where
  "outcome_of outcome =
     (case outcome of Inr result \<Rightarrow> Resolved result | Inl error \<Rightarrow> Rejected error)"

fun one_by_one ::
  "'s \<Rightarrow> (('a, 'l, 's, 'e, 'r) async_fn \<times> 'a) list \<Rightarrow> 's \<times> ('e, 'r) settlement list" where
  "one_by_one s [] = (s, [])"
| "one_by_one s ((fn, args) # rest) =
     (case finish_fn fn (begin_fn fn args s) s of
        (s', outcome) \<Rightarrow>
          (case one_by_one s' rest of
             (s'', outcomes) \<Rightarrow>
               (s'', outcome_of outcome # outcomes)))"

text \<open>Letting the queue work \<open>n\<close> times: start a unit if none is in flight, let it settle.\<close>

definition drain :: "nat \<Rightarrow> ('a, 'l, 's, 'e, 'r) event list" where
  "drain n = concat (replicate n [Start, Settle])"


text \<open>The calls made in a sequence of events, in the order of submission.\<close>

fun submitted ::
  "('a, 'l, 's, 'e, 'r) event list \<Rightarrow> (('a, 'l, 's, 'e, 'r) async_fn \<times> 'a) list" where
  "submitted [] = []"
| "submitted (Call fn args # events) = (fn, args) # submitted events"
| "submitted (Start # events) = submitted events"
| "submitted (Settle # events) = submitted events"

text \<open>
  Operations for evaluation, on a shared counter: an increment that reads the counter
  when it is invoked and writes the successor of what it read when it settles, and an
  operation that rejects and leaves the counter alone.
\<close>

definition increment :: "(unit, nat, nat, string, nat) async_fn" where
  "increment = \<lparr>begin_fn = (\<lambda>args s. s), finish_fn = (\<lambda>l s. (Suc l, Inr (Suc l)))\<rparr>"

definition failing :: "(unit, nat, nat, string, nat) async_fn" where
  "failing = \<lparr>begin_fn = (\<lambda>args s. s), finish_fn = (\<lambda>l s. (s, Inl ''failed''))\<rparr>"

text \<open>
  The facts about the queue that hold after every sequence of events: at most one unit
  is in flight; the units in flight and pending are the calls not yet settled, in the
  order of submission; the settlements so far are those of the first calls, in order,
  with the outcomes of running them one by one; and the invocation in flight has read
  the shared state as it is now.
\<close>

definition serializer_inv :: "'s \<Rightarrow> ('a, 'l, 's, 'e, 'r) serializer \<Rightarrow> bool" where
  "serializer_inv s0 q \<longleftrightarrow>
     length (in_flight q) \<le> 1 \<and>
     map promise (map fst (in_flight q) @ pending q) =
       [length (settled q) ..< length (calls q)] \<and>
     map (\<lambda>j. (job_fn j, job_args j)) (map fst (in_flight q) @ pending q) =
       drop (length (settled q)) (calls q) \<and>
     length (settled q) \<le> length (calls q) \<and>
     map fst (settled q) = [0 ..< length (settled q)] \<and>
     one_by_one s0 (take (length (settled q)) (calls q)) = (shared q, map snd (settled q)) \<and>
     (\<forall>(j, l) \<in> set (in_flight q). l = begin_fn (job_fn j) (job_args j) (shared q))"

section \<open>Properties of the key codec\<close>

lemma endsWith_slash: "endsWith s ''/'' \<longleftrightarrow> s \<noteq> [] \<and> last s = CHR ''/''"
  by (cases s rule: rev_cases) (auto simp: endsWith_def)

text \<open>
  C6. For each of the seven encoder namespaces and every raw token, decoding the encoded
  key gives the token back: \<open>removeKeyType (keyGen ns token) = token\<close>.
\<close>

theorem decode_encode_roundtrip: "removeKeyType (keyGen ns token) = token"
  by (cases ns) (simp_all add: removeKeyType_def key_type_alternatives_def)

theorem decode_encode_roundtrip_witness:
  "removeKeyType (keyGen Term ''title/foo'') = ''title/foo''"
  using decode_encode_roundtrip [of Term "''title/foo''"] by simp

text \<open>
  C7 (as amended). The decoder strips the leading prefix of each of the seven namespaces
  term/, title/, visit/, url/, domain/, tag/ and bookmark/, returning what follows it; a
  key that starts with none of these seven prefixes is returned unchanged, and so is
  every key of the page/ namespace, which the regular expression does not list. The
  decoder is a total function on strings: \<^verbatim>\<open>replace\<close> has no failing case.
\<close>

theorem removeKeyType_seven_namespaces:
  "removeKeyType (namespace_name ns @ ''/'' @ rest) = rest \<and>
   ((\<forall>ns'. \<not> startsWith key (namespace_name ns' @ ''/'')) \<longrightarrow> removeKeyType key = key) \<and>
   removeKeyType (''page/'' @ pageId) = ''page/'' @ pageId"
proof (intro conjI impI)
  show "removeKeyType (namespace_name ns @ ''/'' @ rest) = rest"
    by (cases ns) (simp_all add: removeKeyType_def key_type_alternatives_def)
next
  assume unknown: "\<forall>ns'. \<not> startsWith key (namespace_name ns' @ ''/'')"
  have "\<not> startsWith key (namespace_name Term @ ''/'')"
    "\<not> startsWith key (namespace_name Title @ ''/'')"
    "\<not> startsWith key (namespace_name Visit @ ''/'')"
    "\<not> startsWith key (namespace_name Url @ ''/'')"
    "\<not> startsWith key (namespace_name Domain @ ''/'')"
    "\<not> startsWith key (namespace_name Tag @ ''/'')"
    "\<not> startsWith key (namespace_name Bookmark @ ''/'')"
    using unknown by blast+
  then have "match_key_type key_type_alternatives key = None"
    by (simp add: key_type_alternatives_def)
  then show "removeKeyType key = key"
    by (simp add: removeKeyType_def)
next
  show "removeKeyType (''page/'' @ pageId) = ''page/'' @ pageId"
    by (simp add: removeKeyType_def key_type_alternatives_def)
qed

theorem removeKeyType_seven_namespaces_witness:
  "removeKeyType ''visit/1500'' = ''1500'' \<and>
   (\<forall>ns'. \<not> startsWith ''foo/bar'' (namespace_name ns' @ ''/'')) \<and>
   removeKeyType ''foo/bar'' = ''foo/bar'' \<and>
   removeKeyType ''page/abc'' = ''page/abc''"
proof -
  have unknown: "\<forall>ns'. \<not> startsWith ''foo/bar'' (namespace_name ns' @ ''/'')"
  proof
    fix ns' show "\<not> startsWith ''foo/bar'' (namespace_name ns' @ ''/'')"
      by (cases ns') simp_all
  qed
  show ?thesis
    using unknown
      removeKeyType_seven_namespaces [of Visit "''1500''" "''foo/bar''" "''abc''"]
    by simp
qed

text \<open>
  C7, as stated, fails for the eighth namespace: the key \<open>page/abc\<close> is not decoded to
  \<open>abc\<close>.
\<close>

theorem removeKeyType_page_counterexample: "removeKeyType ''page/abc'' \<noteq> ''abc''"
  by (simp add: removeKeyType_def key_type_alternatives_def)

section \<open>Properties of term extraction\<close>

lemma endsWith_keyGen:
  "endsWith (keyGen ns w) ''/'' \<longleftrightarrow> w = [] \<or> last w = CHR ''/''"
  by (cases ns) (auto simp: endsWith_slash)

text \<open>
  C8 (as amended). For every content, separator and namespace, whatever the semantics of
  \<^verbatim>\<open>split\<close> and of the case folding, the output is the encoding, in order, of
  exactly those folded pieces that are neither empty nor end with a slash: a token is
  discarded if and only if its encoded form ends with \<open>/\<close>.
\<close>

theorem extractContent_characterisation:
  "extractContent split toLowerCase content separator ns =
     map (keyGen ns)
       (filter (\<lambda>w. w \<noteq> [] \<and> last w \<noteq> CHR ''/'')
          (map toLowerCase (split content separator)))"
  by (simp add: extractContent_def filter_map comp_def endsWith_keyGen)

theorem extractContent_characterisation_witness:
  "extractContent split_char toLowerCase_ascii ''Full  Text'' (CHR '' '') Term =
     [''term/full'', ''term/text'']"
  using extractContent_characterisation
          [of split_char toLowerCase_ascii "''Full  Text''" "CHR '' ''" Term]
  by (simp add: toLowerCase_ascii_def lower_char_def)

text \<open>
  C8, as stated, fails: the piece \<open>Foo/\<close> is not empty after folding, yet its token does
  not appear in the output.
\<close>

theorem extractContent_slash_counterexample:
  "toLowerCase_ascii ''Foo/'' = ''foo/'' \<and>
   extractContent split_char toLowerCase_ascii ''Foo/ bar'' (CHR '' '') Term = [''term/bar'']"
  by (simp add: extractContent_def toLowerCase_ascii_def lower_char_def endsWith_def)

section \<open>Properties of Maps and of the filtered range lookup\<close>

lemmas key_eval =
  key_le_def code_units_def continuation_def two_bytes_def three_bytes_def four_bytes_def
  code_point4_def unit2_def unit3_def high_half_def low_half_def

lemma map_of_Map_set: "map_of (Map_set m k v) = (map_of m)(k \<mapsto> v)"
  by (induction m) (auto simp: fun_eq_iff)

lemma keys_Map_set: "set (map fst (Map_set m k v)) = insert k (set (map fst m))"
  by (induction m) force+

lemma keys_Map_set_present:
  "k \<in> set (map fst m) \<Longrightarrow> map fst (Map_set m k v) = map fst m"
  by (induction m) force+

lemma keys_Map_set_new:
  "k \<notin> set (map fst m) \<Longrightarrow> map fst (Map_set m k v) = map fst m @ [k]"
  by (induction m) auto

lemma distinct_Map_set:
  "distinct (map fst m) \<Longrightarrow> distinct (map fst (Map_set m k v))"
  by (cases "k \<in> set (map fst m)") (simp_all add: keys_Map_set_present keys_Map_set_new)

lemma length_Map_set:
  "length (Map_set m k v) = (if k \<in> set (map fst m) then length m else Suc (length m))"
  by (induction m) force+

lemma Map_fold_set_keys:
  "set (map fst (fold (\<lambda>(k, v) m. Map_set m k v) es m)) = set (map fst es) \<union> set (map fst m)"
proof (induction es arbitrary: m)
  case Nil
  then show ?case by simp
next
  case (Cons e es)
  obtain k v where e: "e = (k, v)" by (cases e)
  have "set (map fst (fold (\<lambda>(k, v) m. Map_set m k v) es (Map_set m k v))) =
      set (map fst es) \<union> set (map fst (Map_set m k v))"
    by (rule Cons.IH)
  then show ?case
    unfolding keys_Map_set using e by auto
qed

lemma Map_fold_set_distinct:
  "distinct (map fst m) \<Longrightarrow> distinct (map fst (fold (\<lambda>(k, v) m. Map_set m k v) es m))"
  by (induction es arbitrary: m) (auto simp: distinct_Map_set)

lemma Map_new_keys: "set (map fst (Map_new es)) = set (map fst es)"
  unfolding Map_new_def Map_fold_set_keys by simp

lemma Map_new_distinct: "distinct (map fst (Map_new es))"
  by (simp add: Map_new_def Map_fold_set_distinct)

lemma Map_fold_const_kept:
  "map_of m k = Some c \<Longrightarrow>
   map_of (fold (\<lambda>(k, v) m. Map_set m k v) (map (\<lambda>key. (key, c)) ks) m) k = Some c"
  by (induction ks arbitrary: m) (simp_all add: map_of_Map_set)

lemma Map_fold_const:
  "k \<in> set ks \<Longrightarrow>
   map_of (fold (\<lambda>(k, v) m. Map_set m k v) (map (\<lambda>key. (key, c)) ks) m) k = Some c"
proof (induction ks arbitrary: m)
  case Nil
  then show ?case by simp
next
  case (Cons a ks)
  show ?case
  proof (cases "a = k")
    case True
    then show ?thesis
      by (simp add: Map_fold_const_kept map_of_Map_set)
  next
    case False
    with Cons show ?thesis by simp
  qed
qed

lemma Map_new_const: "k \<in> set ks \<Longrightarrow> map_of (Map_new (map (\<lambda>key. (key, c)) ks)) k = Some c"
  by (simp add: Map_new_def Map_fold_const)

lemma term_fold_keys:
  "set ts \<subseteq> set (map fst m) \<Longrightarrow>
   map fst (fold (\<lambda>(key, value) results.
       if key \<in> set ts then Map_set results key value else results) es m) = map fst m"
proof (induction es arbitrary: m)
  case Nil
  then show ?case by simp
next
  case (Cons e es)
  obtain k v where e: "e = (k, v)" by (cases e)
  show ?case
  proof (cases "k \<in> set ts")
    case True
    with Cons.prems have "k \<in> set (map fst m)" by blast
    then have same: "map fst (Map_set m k v) = map fst m"
      by (rule keys_Map_set_present)
    then have "set ts \<subseteq> set (map fst (Map_set m k v))"
      using Cons.prems by simp
    from Cons.IH [OF this] same True e show ?thesis by simp
  next
    case False
    with Cons e show ?thesis by simp
  qed
qed

lemma term_fold_value:
  "distinct (map fst es) \<Longrightarrow> k \<in> set ts \<Longrightarrow>
   map_of (fold (\<lambda>(key, value) results.
       if key \<in> set ts then Map_set results key value else results) es m) k =
   (case map_of es k of None \<Rightarrow> map_of m k | Some v \<Rightarrow> Some v)"
proof (induction es arbitrary: m)
  case Nil
  then show ?case by simp
next
  case (Cons e es)
  obtain k' v' where e: "e = (k', v')" by (cases e)
  from Cons.prems e have d: "distinct (map fst es)" and nin: "k' \<notin> set (map fst es)" by auto
  show ?case
  proof (cases "k' = k")
    case True
    with nin have "map_of es k = None" by (simp add: map_of_eq_None_iff)
    with Cons.IH [OF d Cons.prems(2)] True e Cons.prems(2) show ?thesis
      by (simp add: map_of_Map_set)
  next
    case False
    then have "map_of (Map_set m k' v') k = map_of m k"
      by (simp add: map_of_Map_set)
    with Cons.IH [OF d Cons.prems(2)] e False show ?thesis
      by (simp split: option.splits)
  qed
qed

lemma distinct_createReadStream:
  "distinct (map fst db) \<Longrightarrow> distinct (map fst (createReadStream db opts))"
  by (simp add: createReadStream_def Let_def distinct_map_filter rev_map [symmetric])

lemma map_of_filter_keys:
  "map_of (filter (\<lambda>(key, value). P key) db) k = (if P k then map_of db k else None)"
  by (induction db) auto

text \<open>
  The upper bound of the scanned range: no code unit is above U+FFFF, the bound reads
  as the code units of the prefix followed by U+FFFF, and so every key that continues
  the prefix with a code unit below U+FFFF lies within the range.
\<close>

lemma unit2_bound: "two_bytes b0 b1 \<Longrightarrow> unit2 b0 b1 \<le> 65535"
  unfolding two_bytes_def unit2_def continuation_def by linarith

lemma unit3_bound: "three_bytes b0 b1 b2 \<Longrightarrow> unit3 b0 b1 b2 \<le> 65535"
  unfolding three_bytes_def unit3_def continuation_def by linarith

lemma high_half_bound: "cp < 1114112 \<Longrightarrow> high_half cp \<le> 65535"
  unfolding high_half_def by linarith

lemma low_half_bound: "low_half cp \<le> 65535"
proof -
  have "(cp - 65536) mod 1024 < 1024" by simp
  then show ?thesis unfolding low_half_def by linarith
qed

lemma utf16_units_bound:
  "\<forall>b \<in> set bs. b < 256 \<Longrightarrow> \<forall>u \<in> set (utf16_units bs). u \<le> 65535"
proof (induction bs rule: utf16_units.induct)
  case (1 b0 b1 b2 b3 bs)
  then show ?case
    by (simp add: unit2_bound unit3_bound low_half_bound high_half_bound four_bytes_def)
next
  case (2 b0 b1 b2)
  then show ?case by (simp add: unit2_bound unit3_bound)
next
  case (3 b0 b1)
  then show ?case by (simp add: unit2_bound)
next
  case (4 b0)
  then show ?case by simp
next
  case 5
  then show ?case by simp
qed


lemma not_continuation_239 [simp]: "\<not> continuation 239"
  by (simp add: continuation_def)

lemma no_sequence_through_239 [simp]:
  "\<not> two_bytes b0 239" "\<not> three_bytes b0 239 b2" "\<not> three_bytes b0 b1 239"
  "\<not> four_bytes b0 239 b2 b3" "\<not> four_bytes b0 b1 239 b3" "\<not> four_bytes b0 b1 b2 239"
  by (simp_all add: two_bytes_def three_bytes_def four_bytes_def)

lemma upper_bound_sequence [simp]: "three_bytes 239 191 191" "unit3 239 191 191 = 65535"
  by (simp_all add: three_bytes_def unit3_def continuation_def)

lemma utf16_units_upper_bound:
  "utf16_units (bs @ [239, 191, 191]) = utf16_units bs @ [65535]"
proof (induction bs rule: utf16_units.induct)
  case (1 b0 b1 b2 b3 bs)
  then show ?case by simp
next
  case (2 b0 b1 b2)
  then show ?case by simp
next
  case (3 b0 b1)
  then show ?case by simp
next
  case (4 b0)
  then show ?case by simp
next
  case 5
  then show ?case by simp
qed

lemma code_units_upper_bound: "code_units (termKey @ max_sort_char) = code_units termKey @ [65535]"
  using utf16_units_upper_bound [of "map of_char termKey"]
  by (simp add: code_units_def max_sort_char_def)


lemma units_le_refl_append: "units_le xs (xs @ us)"
  by (induction xs) simp_all

lemma units_le_common_prefix: "units_le (xs @ us) (xs @ vs) = units_le us vs"
  by (induction xs) simp_all

lemma prefix_range_in_bounds:
  assumes "code_units key = code_units termKey @ us"
    and "us = [] \<or> hd us < 65535 \<or> us = [65535]"
  shows "key_le termKey key \<and> key_le key (termKey @ max_sort_char)"
proof -
  from assms(2) have "units_le us [65535]"
    by (cases us) auto
  then show ?thesis
    by (simp add: key_le_def assms(1) code_units_upper_bound units_le_refl_append
        units_le_common_prefix)
qed

text \<open>
  C3. In a store with one value per key, for every prefix and every set of candidate
  keys, the result of \<open>termRangeLookup\<close> has exactly the candidate keys, once each; a
  candidate key that is an entry of the store within the scanned range
  \<open>[termKey, termKey + U+FFFF]\<close> maps to its stored value, and every other candidate key
  maps to \<open>null\<close>. The range holds every key that continues the prefix with a code
  unit below U+FFFF, so such a candidate maps to its stored value whenever the store has
  one.
\<close>

theorem termRangeLookup_covers_candidates:
  assumes "distinct (map fst db)"
  shows "set (map fst (termRangeLookup db termKey termsSet)) = set termsSet \<and>
    distinct (map fst (termRangeLookup db termKey termsSet)) \<and>
    (\<forall>key \<in> set termsSet.
       Map_get (termRangeLookup db termKey termsSet) key =
         Some (if key_le termKey key \<and> key_le key (termKey @ max_sort_char)
               then (case map_of db key of None \<Rightarrow> Prim JNull | Some value \<Rightarrow> value)
               else Prim JNull)) \<and>
    (\<forall>key \<in> set termsSet. \<forall>us.
       code_units key = code_units termKey @ us \<and>
       (us = [] \<or> hd us < 65535 \<or> us = [65535]) \<longrightarrow>
       Map_get (termRangeLookup db termKey termsSet) key =
         Some (case map_of db key of None \<Rightarrow> Prim JNull | Some value \<Rightarrow> value))"
proof -
  let ?init = "Map_new (map (\<lambda>key. (key, Prim JNull :: 'a jsval)) termsSet)"
  let ?opts = "\<lparr>gte = Some termKey, lte = Some (termKey @ max_sort_char), reverse = False\<rparr>"
  let ?es = "createReadStream db ?opts"
  have keys0: "set (map fst ?init) = set termsSet"
    unfolding Map_new_keys by (simp add: comp_def)
  have fixed: "map fst (termRangeLookup db termKey termsSet) = map fst ?init"
    unfolding termRangeLookup_def Let_def
    by (rule term_fold_keys) (use keys0 in simp)
  have k1: "set (map fst (termRangeLookup db termKey termsSet)) = set termsSet"
    using keys0 by (simp add: fixed)
  have k2: "distinct (map fst (termRangeLookup db termKey termsSet))"
    by (simp add: fixed Map_new_distinct)
  have k3: "Map_get (termRangeLookup db termKey termsSet) key =
         Some (if key_le termKey key \<and> key_le key (termKey @ max_sort_char)
               then (case map_of db key of None \<Rightarrow> Prim JNull | Some value \<Rightarrow> value)
               else Prim JNull)" if mem: "key \<in> set termsSet" for key
  proof -
    have d: "distinct (map fst ?es)"
      using assms by (rule distinct_createReadStream)
    have es: "map_of ?es key =
        (if key_le termKey key \<and> key_le key (termKey @ max_sort_char)
         then map_of db key else None)"
      by (simp add: createReadStream_def in_bounds_def map_of_filter_keys)
    have "Map_get (termRangeLookup db termKey termsSet) key =
        (case map_of ?es key of None \<Rightarrow> map_of ?init key | Some v \<Rightarrow> Some v)"
      unfolding termRangeLookup_def Let_def Map_get_def
      by (rule term_fold_value [OF d mem])
    also have "map_of ?init key = Some (Prim JNull)"
      using mem by (rule Map_new_const)
    finally show ?thesis
      by (simp add: es split: option.splits)
  qed
  have k4: "Map_get (termRangeLookup db termKey termsSet) key =
         Some (case map_of db key of None \<Rightarrow> Prim JNull | Some value \<Rightarrow> value)"
    if mem: "key \<in> set termsSet" and ext: "code_units key = code_units termKey @ us"
      and below: "us = [] \<or> hd us < 65535 \<or> us = [65535]" for key us
    using k3 [OF mem] prefix_range_in_bounds [OF ext below] by simp
  from k1 k2 k3 k4 show ?thesis by blast
qed

theorem termRangeLookup_covers_candidates_witness:
  "distinct (map fst example_terms) \<and>
   map fst (termRangeLookup example_terms ''term/''
       [''term/foo'', ''term/bar'', ''title/bar'',
        ''term/'' @ [CHR 0xF0, CHR 0x9F, CHR 0x98, CHR 0x80]]) =
     [''term/foo'', ''term/bar'', ''title/bar'',
      ''term/'' @ [CHR 0xF0, CHR 0x9F, CHR 0x98, CHR 0x80]] \<and>
   Map_get (termRangeLookup example_terms ''term/''
       [''term/foo'', ''term/bar'', ''title/bar'',
        ''term/'' @ [CHR 0xF0, CHR 0x9F, CHR 0x98, CHR 0x80]])
     ''term/foo'' = Some (Prim (JStr ''X'')) \<and>
   Map_get (termRangeLookup example_terms ''term/''
       [''term/foo'', ''term/bar'', ''title/bar'',
        ''term/'' @ [CHR 0xF0, CHR 0x9F, CHR 0x98, CHR 0x80]])
     ''term/bar'' = Some (Prim JNull) \<and>
   Map_get (termRangeLookup example_terms ''term/''
       [''term/foo'', ''term/bar'', ''title/bar'',
        ''term/'' @ [CHR 0xF0, CHR 0x9F, CHR 0x98, CHR 0x80]])
     ''title/bar'' = Some (Prim JNull) \<and>
   Map_get (termRangeLookup example_terms ''term/''
       [''term/foo'', ''term/bar'', ''title/bar'',
        ''term/'' @ [CHR 0xF0, CHR 0x9F, CHR 0x98, CHR 0x80]])
     (''term/'' @ [CHR 0xF0, CHR 0x9F, CHR 0x98, CHR 0x80]) = Some (Prim (JStr ''Z''))"
proof -
  let ?face = "''term/'' @ [CHR 0xF0, CHR 0x9F, CHR 0x98, CHR 0x80]"
  let ?terms = "[''term/foo'', ''term/bar'', ''title/bar'', ?face]"
  have d: "distinct (map fst example_terms)"
    by (simp add: example_terms_def)
  have keys: "map fst (termRangeLookup example_terms ''term/'' ?terms) = ?terms"
    by (simp add: termRangeLookup_def example_terms_def Map_new_def createReadStream_def
        in_bounds_def max_sort_char_def key_eval)
  have bounds: "key_le ''term/'' ''term/foo''" "key_le ''term/foo'' (''term/'' @ max_sort_char)"
    "key_le ''term/'' ''term/bar''" "key_le ''term/bar'' (''term/'' @ max_sort_char)"
    "\<not> key_le ''title/bar'' (''term/'' @ max_sort_char)"
    by (simp_all add: max_sort_char_def key_eval)
  have face: "code_units ?face = code_units ''term/'' @ [55357, 56832]"
    by (simp add: key_eval)
  note all = termRangeLookup_covers_candidates [OF d, of "''term/''" ?terms]
  from all [THEN conjunct2, THEN conjunct2, THEN conjunct1] bounds
  have "Map_get (termRangeLookup example_terms ''term/'' ?terms) ''term/foo'' =
      Some (Prim (JStr ''X''))"
    and "Map_get (termRangeLookup example_terms ''term/'' ?terms) ''term/bar'' =
      Some (Prim JNull)"
    and "Map_get (termRangeLookup example_terms ''term/'' ?terms) ''title/bar'' =
      Some (Prim JNull)"
    by (simp_all add: example_terms_def)
  moreover from all [THEN conjunct2, THEN conjunct2, THEN conjunct2] face
  have "Map_get (termRangeLookup example_terms ''term/'' ?terms) ?face =
      Some (Prim (JStr ''Z''))"
    by (simp add: example_terms_def)
  ultimately show ?thesis
    using d keys by simp
qed

section \<open>Properties of the reverse range lookup\<close>

lemma Map_has_iff: "Map_has m k \<longleftrightarrow> k \<in> set (map fst m)"
  by (simp add: Map_has_def map_of_eq_None_iff)

lemma Map_set_new: "k \<notin> set (map fst m) \<Longrightarrow> Map_set m k v = m @ [(k, v)]"
  by (induction m) force+

text \<open>One step of the scan, as the cases of the handler.\<close>

lemma reverseScan_step:
  assumes "reverseScan limit ((k, v) # es) data n = Inr (data', n')"
  obtains (cancelled) "limit_reached limit (length data)" "data' = data" "n' = Suc n"
  | (known) pageId meta where "\<not> limit_reached limit (length data)"
      "normalizeTimestampVals v = Inr (pageId, meta)" "pageId \<in> set (map fst data)"
      "reverseScan limit es data (Suc n) = Inr (data', n')"
  | (fresh) pageId meta where "\<not> limit_reached limit (length data)"
      "normalizeTimestampVals v = Inr (pageId, meta)" "pageId \<notin> set (map fst data)"
      "reverseScan limit es
         (data @ [(pageId, spread [(''latest'', JStr (removeKeyType k))] meta)]) (Suc n) =
       Inr (data', n')"
proof (cases "limit_reached limit (length data)")
  case True
  with assms have "data' = data" "n' = Suc n"
    by (simp_all add: Map_size_def)
  with True show ?thesis by (rule cancelled)
next
  case False
  with assms obtain pageId meta where
    norm: "normalizeTimestampVals v = Inr (pageId, meta)"
    by (cases "normalizeTimestampVals v") (auto simp: Map_size_def)
  show ?thesis
  proof (cases "pageId \<in> set (map fst data)")
    case True
    with assms False norm have "reverseScan limit es data (Suc n) = Inr (data', n')"
      by (simp add: Map_size_def Map_has_iff)
    with False norm True show ?thesis by (rule known)
  next
    case notin: False
    with assms False norm have "reverseScan limit es
         (data @ [(pageId, spread [(''latest'', JStr (removeKeyType k))] meta)]) (Suc n) =
       Inr (data', n')"
      by (simp add: Map_size_def Map_has_iff Map_set_new)
    with False norm notin show ?thesis by (rule fresh)
  qed
qed

lemma set_first_occurrences: "set (first_occurrences xs) = set xs"
  by (induction xs rule: first_occurrences.induct) auto

lemma distinct_first_occurrences: "distinct (first_occurrences xs)"
  by (induction xs rule: first_occurrences.induct) (auto simp: set_first_occurrences)

lemma first_occurrences_seen:
  "x \<in> set ks \<Longrightarrow>
   first_occurrences (filter (\<lambda>p. p \<notin> set ks) (x # ps)) =
   first_occurrences (filter (\<lambda>p. p \<notin> set ks) ps)"
  by simp

lemma first_occurrences_fresh:
  "x \<notin> set ks \<Longrightarrow>
   first_occurrences (filter (\<lambda>p. p \<notin> set ks) (x # ps)) =
   x # first_occurrences (filter (\<lambda>p. p \<notin> set (ks @ [x])) ps)"
proof -
  have "filter (\<lambda>y. y \<noteq> x) (filter (\<lambda>p. p \<notin> set ks) ps) =
      filter (\<lambda>p. p \<notin> set (ks @ [x])) ps"
    by (auto intro: filter_cong)
  then show "x \<notin> set ks \<Longrightarrow> ?thesis" by simp
qed

lemma scanned_pageIds_Cons:
  "normalizeTimestampVals v = Inr (pageId, meta) \<Longrightarrow>
   scanned_pageIds ((k, v) # es) = pageId # scanned_pageIds es"
  by (simp add: scanned_pageIds_def pageId_of_def)

lemma reverseScan_keys:
  assumes "reverseScan limit es data n = Inr (data', n')"
    and "\<forall>l. limit = Some l \<longrightarrow> length data \<le> l"
  shows "map fst data' =
    within_limit limit
      (map fst data @
       first_occurrences (filter (\<lambda>p. p \<notin> set (map fst data)) (scanned_pageIds es)))"
  using assms
proof (induction es arbitrary: data n)
  case Nil
  then show ?case
    by (auto simp: within_limit_def scanned_pageIds_def split: option.splits)
next
  case (Cons e es)
  obtain k v where e: "e = (k, v)" by (cases e)
  from Cons.prems(1) have run: "reverseScan limit ((k, v) # es) data n = Inr (data', n')"
    by (simp only: e)
  from run show ?case
  proof (cases rule: reverseScan_step)
    case cancelled
    with Cons.prems(2) show ?thesis
      by (auto simp: within_limit_def limit_reached_def split: option.splits)
  next
    case (known pageId meta)
    have "map fst data' =
        within_limit limit
          (map fst data @
           first_occurrences (filter (\<lambda>p. p \<notin> set (map fst data)) (scanned_pageIds es)))"
      using known(4) Cons.prems(2) by (rule Cons.IH)
    then show ?thesis
      unfolding e scanned_pageIds_Cons [OF known(2)] first_occurrences_seen [OF known(3)] .
  next
    case (fresh pageId meta)
    let ?data = "data @ [(pageId, spread [(''latest'', JStr (removeKeyType k))] meta)]"
    from fresh(1) Cons.prems(2) have "\<forall>l. limit = Some l \<longrightarrow> length ?data \<le> l"
      by (auto simp: limit_reached_def)
    with fresh(4) have "map fst data' =
        within_limit limit
          (map fst ?data @
           first_occurrences (filter (\<lambda>p. p \<notin> set (map fst ?data)) (scanned_pageIds es)))"
      by (rule Cons.IH)
    then show ?thesis
      unfolding e scanned_pageIds_Cons [OF fresh(2)] first_occurrences_fresh [OF fresh(3)]
      by simp
  qed
qed

lemma normalize_throws:
  "normalizeTimestampVals v = Inl e \<longleftrightarrow> e = TypeError \<and> (v = Prim JNull \<or> v = Prim JUndefined)"
  by (cases v rule: normalizeTimestampVals.cases) auto

lemma normalize_resolves:
  "normalizeTimestampVals v = Inr r \<Longrightarrow> v \<noteq> Prim JNull \<and> v \<noteq> Prim JUndefined"
  by (cases v rule: normalizeTimestampVals.cases) auto

text \<open>One step of a scan that ends in a throw.\<close>

lemma reverseScan_throw_step:
  assumes "reverseScan limit ((k, v) # es) data n = Inl e"
  obtains (here) "\<not> limit_reached limit (length data)" "normalizeTimestampVals v = Inl e"
  | (known) pageId meta where "\<not> limit_reached limit (length data)"
      "normalizeTimestampVals v = Inr (pageId, meta)" "pageId \<in> set (map fst data)"
      "reverseScan limit es data (Suc n) = Inl e"
  | (fresh) pageId meta where "\<not> limit_reached limit (length data)"
      "normalizeTimestampVals v = Inr (pageId, meta)" "pageId \<notin> set (map fst data)"
      "reverseScan limit es
         (data @ [(pageId, spread [(''latest'', JStr (removeKeyType k))] meta)]) (Suc n) =
       Inl e"
proof -
  from assms have open_: "\<not> limit_reached limit (length data)"
    by (cases "limit_reached limit (length data)") (simp_all add: Map_size_def)
  show ?thesis
  proof (cases "normalizeTimestampVals v")
    case (Inl e')
    with assms open_ have "e' = e"
      by (simp add: Map_size_def)
    with Inl open_ show ?thesis by (simp add: here)
  next
    case (Inr r)
    obtain pageId meta where r: "r = (pageId, meta)" by (cases r)
    with Inr have norm: "normalizeTimestampVals v = Inr (pageId, meta)" by simp
    show ?thesis
    proof (cases "pageId \<in> set (map fst data)")
      case True
      with assms open_ norm have "reverseScan limit es data (Suc n) = Inl e"
        by (simp add: Map_size_def Map_has_iff)
      with open_ norm True show ?thesis by (rule known)
    next
      case notin: False
      with assms open_ norm have "reverseScan limit es
           (data @ [(pageId, spread [(''latest'', JStr (removeKeyType k))] meta)]) (Suc n) =
         Inl e"
        by (simp add: Map_size_def Map_has_iff Map_set_new)
      with open_ norm notin show ?thesis by (rule fresh)
    qed
  qed
qed

text \<open>The size of the \<^verbatim>\<open>Map\<close> along the scan.\<close>

lemma size_after_0: "size_after data es 0 = length data"
  by (simp add: size_after_def scanned_pageIds_def)

lemma size_after_known:
  "normalizeTimestampVals v = Inr (pageId, meta) \<Longrightarrow> pageId \<in> set (map fst data) \<Longrightarrow>
   size_after data ((k, v) # es) (Suc j) = size_after data es j"
  unfolding size_after_def take_Suc_Cons
  by (simp only: scanned_pageIds_Cons first_occurrences_seen)

lemma size_after_fresh:
  "normalizeTimestampVals v = Inr (pageId, meta) \<Longrightarrow> pageId \<notin> set (map fst data) \<Longrightarrow>
   size_after data ((k, v) # es) (Suc j) = size_after (data @ [(pageId, obj)]) es j"
proof -
  assume norm: "normalizeTimestampVals v = Inr (pageId, meta)"
    and new: "pageId \<notin> set (map fst data)"
  have "map fst (data @ [(pageId, obj)]) = map fst data @ [pageId]"
    by simp
  then show ?thesis
    unfolding size_after_def take_Suc_Cons scanned_pageIds_Cons [OF norm]
      first_occurrences_fresh [OF new]
    by (simp del: set_append map_append)
qed

text \<open>
  A scan that resolves has met no \<^verbatim>\<open>null\<close> or \<^verbatim>\<open>undefined\<close> among the entries
  it handled, and stops at the first entry that finds the limit reached or at the end.
\<close>

lemma reverseScan_resolves:
  assumes "reverseScan limit es data n = Inr (data', n')"
  shows "\<exists>h \<le> length es.
    (\<forall>j < h. \<not> limit_reached limit (size_after data es j)) \<and>
    (\<forall>i < h. snd (es ! i) \<noteq> Prim JNull \<and> snd (es ! i) \<noteq> Prim JUndefined) \<and>
    (h = length es \<and> n' = n + h \<or>
     h < length es \<and> limit_reached limit (size_after data es h) \<and> n' = Suc (n + h))"
  using assms
proof (induction es arbitrary: data n)
  case Nil
  then show ?case by simp
next
  case (Cons e es)
  obtain k v where e: "e = (k, v)" by (cases e)
  from Cons.prems have run: "reverseScan limit ((k, v) # es) data n = Inr (data', n')"
    by (simp only: e)
  have step: "\<exists>h \<le> length ((k, v) # es).
      (\<forall>j < h. \<not> limit_reached limit (size_after data ((k, v) # es) j)) \<and>
      (\<forall>i < h. snd (((k, v) # es) ! i) \<noteq> Prim JNull \<and>
         snd (((k, v) # es) ! i) \<noteq> Prim JUndefined) \<and>
      (h = length ((k, v) # es) \<and> n' = n + h \<or>
       h < length ((k, v) # es) \<and>
       limit_reached limit (size_after data ((k, v) # es) h) \<and> n' = Suc (n + h))"
    if later: "\<exists>h \<le> length es.
        (\<forall>j < h. \<not> limit_reached limit (size_after data2 es j)) \<and>
        (\<forall>i < h. snd (es ! i) \<noteq> Prim JNull \<and> snd (es ! i) \<noteq> Prim JUndefined) \<and>
        (h = length es \<and> n' = Suc n + h \<or>
         h < length es \<and> limit_reached limit (size_after data2 es h) \<and>
         n' = Suc (Suc n + h))"
      and shift: "\<And>j. size_after data ((k, v) # es) (Suc j) = size_after data2 es j"
      and open_: "\<not> limit_reached limit (length data)"
      and norm: "normalizeTimestampVals v = Inr (pageId, meta)"
    for data2 pageId meta
  proof -
    from later obtain h where h: "h \<le> length es"
      and before: "\<forall>j < h. \<not> limit_reached limit (size_after data2 es j)"
      and sound: "\<forall>i < h. snd (es ! i) \<noteq> Prim JNull \<and> snd (es ! i) \<noteq> Prim JUndefined"
      and stop: "h = length es \<and> n' = Suc n + h \<or>
         h < length es \<and> limit_reached limit (size_after data2 es h) \<and>
         n' = Suc (Suc n + h)"
      by blast
    have before': "\<not> limit_reached limit (size_after data ((k, v) # es) j)"
      if "j < Suc h" for j
    proof (cases j)
      case 0
      with open_ show ?thesis by (simp add: size_after_0)
    next
      case (Suc j')
      with that before show ?thesis by (simp add: shift)
    qed
    have sound': "snd (((k, v) # es) ! i) \<noteq> Prim JNull \<and>
        snd (((k, v) # es) ! i) \<noteq> Prim JUndefined" if "i < Suc h" for i
    proof (cases i)
      case 0
      with normalize_resolves [OF norm] show ?thesis by simp
    next
      case (Suc i')
      with that sound show ?thesis by simp
    qed
    from stop have stop': "Suc h = length ((k, v) # es) \<and> n' = n + Suc h \<or>
        Suc h < length ((k, v) # es) \<and>
        limit_reached limit (size_after data ((k, v) # es) (Suc h)) \<and> n' = Suc (n + Suc h)"
      by (auto simp: shift)
    from h have "Suc h \<le> length ((k, v) # es)" by simp
    with before' sound' stop' show ?thesis
      by (intro exI [of _ "Suc h"] conjI allI impI) simp_all
  qed
  from run have "\<exists>h \<le> length ((k, v) # es).
      (\<forall>j < h. \<not> limit_reached limit (size_after data ((k, v) # es) j)) \<and>
      (\<forall>i < h. snd (((k, v) # es) ! i) \<noteq> Prim JNull \<and>
         snd (((k, v) # es) ! i) \<noteq> Prim JUndefined) \<and>
      (h = length ((k, v) # es) \<and> n' = n + h \<or>
       h < length ((k, v) # es) \<and>
       limit_reached limit (size_after data ((k, v) # es) h) \<and> n' = Suc (n + h))"
  proof (cases rule: reverseScan_step)
    case cancelled
    then have "0 \<le> length ((k, v) # es) \<and>
      (\<forall>j < 0. \<not> limit_reached limit (size_after data ((k, v) # es) j)) \<and>
      (\<forall>i < (0::nat). snd (((k, v) # es) ! i) \<noteq> Prim JNull \<and>
         snd (((k, v) # es) ! i) \<noteq> Prim JUndefined) \<and>
      (0 = length ((k, v) # es) \<and> n' = n + 0 \<or>
       0 < length ((k, v) # es) \<and>
       limit_reached limit (size_after data ((k, v) # es) 0) \<and> n' = Suc (n + 0))"
      by (simp add: size_after_0)
    then show ?thesis by - (rule exI [of _ 0])
  next
    case (known pageId meta)
    from Cons.IH [OF known(4)] size_after_known [OF known(2) known(3)] known(1) known(2)
    show ?thesis by (rule step)
  next
    case (fresh pageId meta)
    from Cons.IH [OF fresh(4)] size_after_fresh [OF fresh(2) fresh(3)] fresh(1) fresh(2)
    show ?thesis by (rule step)
  qed
  then show ?case by (simp only: e)
qed

text \<open>
  A scan that throws has met \<^verbatim>\<open>null\<close> or \<^verbatim>\<open>undefined\<close> before any entry
  found the limit reached.
\<close>

lemma reverseScan_throws:
  assumes "reverseScan limit es data n = Inl e"
  shows "e = TypeError \<and>
    (\<exists>i < length es.
       (snd (es ! i) = Prim JNull \<or> snd (es ! i) = Prim JUndefined) \<and>
       (\<forall>j \<le> i. \<not> limit_reached limit (size_after data es j)))"
  using assms
proof (induction es arbitrary: data n)
  case Nil
  then show ?case by simp
next
  case (Cons e0 es)
  obtain k v where e0: "e0 = (k, v)" by (cases e0)
  from Cons.prems have run: "reverseScan limit ((k, v) # es) data n = Inl e"
    by (simp only: e0)
  have step: "e = TypeError \<and>
      (\<exists>i < length ((k, v) # es).
         (snd (((k, v) # es) ! i) = Prim JNull \<or> snd (((k, v) # es) ! i) = Prim JUndefined) \<and>
         (\<forall>j \<le> i. \<not> limit_reached limit (size_after data ((k, v) # es) j)))"
    if later: "e = TypeError \<and>
        (\<exists>i < length es.
           (snd (es ! i) = Prim JNull \<or> snd (es ! i) = Prim JUndefined) \<and>
           (\<forall>j \<le> i. \<not> limit_reached limit (size_after data2 es j)))"
      and shift: "\<And>j. size_after data ((k, v) # es) (Suc j) = size_after data2 es j"
      and open_: "\<not> limit_reached limit (length data)"
    for data2
  proof -
    from later obtain i where i: "i < length es"
      and bad: "snd (es ! i) = Prim JNull \<or> snd (es ! i) = Prim JUndefined"
      and before: "\<forall>j \<le> i. \<not> limit_reached limit (size_after data2 es j)"
      by blast
    have before': "\<not> limit_reached limit (size_after data ((k, v) # es) j)"
      if "j \<le> Suc i" for j
    proof (cases j)
      case 0
      with open_ show ?thesis by (simp add: size_after_0)
    next
      case (Suc j')
      with that before show ?thesis by (simp add: shift)
    qed
    from i have "Suc i < length ((k, v) # es)" by simp
    moreover from bad have "snd (((k, v) # es) ! Suc i) = Prim JNull \<or>
        snd (((k, v) # es) ! Suc i) = Prim JUndefined" by simp
    ultimately show ?thesis using before' later
      by (intro conjI exI [of _ "Suc i"] allI impI) simp_all
  qed
  from run have "e = TypeError \<and>
      (\<exists>i < length ((k, v) # es).
         (snd (((k, v) # es) ! i) = Prim JNull \<or> snd (((k, v) # es) ! i) = Prim JUndefined) \<and>
         (\<forall>j \<le> i. \<not> limit_reached limit (size_after data ((k, v) # es) j)))"
  proof (cases rule: reverseScan_throw_step)
    case here
    from here(2) have "e = TypeError" and "v = Prim JNull \<or> v = Prim JUndefined"
      by (simp_all add: normalize_throws)
    moreover have "\<forall>j \<le> 0. \<not> limit_reached limit (size_after data ((k, v) # es) j)"
      using here(1) by (simp add: size_after_0)
    ultimately have "e = TypeError \<and> 0 < length ((k, v) # es) \<and>
        (snd (((k, v) # es) ! 0) = Prim JNull \<or> snd (((k, v) # es) ! 0) = Prim JUndefined) \<and>
        (\<forall>j \<le> 0. \<not> limit_reached limit (size_after data ((k, v) # es) j))"
      by simp
    then show ?thesis by (intro conjI exI [of _ 0]) simp_all
  next
    case (known pageId meta)
    from Cons.IH [OF known(4)] size_after_known [OF known(2) known(3)] known(1)
    show ?thesis by (rule step)
  next
    case (fresh pageId meta)
    from Cons.IH [OF fresh(4)] size_after_fresh [OF fresh(2) fresh(3)] fresh(1)
    show ?thesis by (rule step)
  qed
  then show ?case by (simp only: e0)
qed

lemma first_recorded_here:
  "normalizeTimestampVals v = Inr (pageId, meta) \<Longrightarrow>
   first_recorded ((k, v) # es) pageId (spread [(''latest'', JStr (removeKeyType k))] meta)"
  unfolding first_recorded_def
  by (intro exI [of _ "[]"] exI [of _ k] exI [of _ v] exI [of _ meta] exI [of _ es])
    (simp add: scanned_pageIds_def)

lemma first_recorded_later:
  assumes "first_recorded es pageId obj"
    and "normalizeTimestampVals v = Inr (pageId', meta')"
    and "pageId \<noteq> pageId'"
  shows "first_recorded ((k, v) # es) pageId obj"
proof -
  from assms(1) obtain pre k1 v1 meta post where
    split: "es = pre @ (k1, v1) # post"
    and unseen: "pageId \<notin> set (scanned_pageIds pre)"
    and norm: "normalizeTimestampVals v1 = Inr (pageId, meta)"
    and obj: "obj = spread [(''latest'', JStr (removeKeyType k1))] meta"
    unfolding first_recorded_def by blast
  from split have "(k, v) # es = ((k, v) # pre) @ (k1, v1) # post"
    by simp
  moreover from unseen assms(3) have "pageId \<notin> set (scanned_pageIds ((k, v) # pre))"
    by (simp add: scanned_pageIds_Cons [OF assms(2)])
  ultimately show ?thesis
    unfolding first_recorded_def using norm obj by blast
qed

lemma reverseScan_provenance:
  assumes "reverseScan limit es data n = Inr (data', n')"
  shows "\<exists>new. data' = data @ new \<and>
    (\<forall>(pageId, obj) \<in> set new.
       pageId \<notin> set (map fst data) \<and> first_recorded es pageId obj)"
  using assms
proof (induction es arbitrary: data n)
  case Nil
  then show ?case by simp
next
  case (Cons e es)
  obtain k v where e: "e = (k, v)" by (cases e)
  from Cons.prems have run: "reverseScan limit ((k, v) # es) data n = Inr (data', n')"
    by (simp only: e)
  from run show ?case
  proof (cases rule: reverseScan_step)
    case cancelled
    then show ?thesis by simp
  next
    case (known pageId meta)
    from Cons.IH [OF known(4)] obtain new where new: "data' = data @ new"
      and prov: "\<forall>(p, obj) \<in> set new. p \<notin> set (map fst data) \<and> first_recorded es p obj"
      by blast
    have "\<forall>(p, obj) \<in> set new.
        p \<notin> set (map fst data) \<and> first_recorded ((k, v) # es) p obj"
    proof (clarify, rule conjI)
      fix p obj assume mem: "(p, obj) \<in> set new"
      with prov have p: "p \<notin> set (map fst data)" and rec: "first_recorded es p obj"
        by auto
      from p show "p \<notin> set (map fst data)" .
      from p known(3) have "p \<noteq> pageId" by blast
      with rec known(2) show "first_recorded ((k, v) # es) p obj"
        by (rule first_recorded_later)
    qed
    with new show ?thesis unfolding e by blast
  next
    case (fresh pageId meta)
    let ?obj = "spread [(''latest'', JStr (removeKeyType k))] meta"
    let ?data = "data @ [(pageId, ?obj)]"
    from Cons.IH [OF fresh(4)] obtain new where new: "data' = ?data @ new"
      and prov: "\<forall>(p, obj) \<in> set new. p \<notin> set (map fst ?data) \<and> first_recorded es p obj"
      by blast
    have "\<forall>(p, obj) \<in> set ((pageId, ?obj) # new).
        p \<notin> set (map fst data) \<and> first_recorded ((k, v) # es) p obj"
    proof (clarify, rule conjI)
      fix p obj assume mem: "(p, obj) \<in> set ((pageId, ?obj) # new)"
      show "p \<notin> set (map fst data)"
        using mem prov fresh(3) by auto
      show "first_recorded ((k, v) # es) p obj"
      proof (cases "(p, obj) = (pageId, ?obj)")
        case True
        with first_recorded_here [OF fresh(2)] show ?thesis by simp
      next
        case False
        with mem have mem': "(p, obj) \<in> set new" by auto
        with prov have "p \<notin> set (map fst ?data)" and rec: "first_recorded es p obj"
          by auto
        then have "p \<noteq> pageId" by simp
        with rec fresh(2) show ?thesis
          by (rule first_recorded_later)
      qed
    qed
    moreover from new have "data' = data @ (pageId, ?obj) # new" by simp
    ultimately show ?thesis unfolding e by blast
  qed
qed

text \<open>
  C2 (as amended). For every store, bounds and limit. The scan is the entries within
  the bounds in descending order. The entry at position \<open>j\<close> of the scan, when it is
  delivered, finds \<open>seen j\<close> page ids in the \<^verbatim>\<open>Map\<close>: the number of distinct page
  ids of the entries before it. An entry finds the limit reached when that number is at
  least the limit (never, when the limit is \<^verbatim>\<open>Infinity\<close>).

  The handler throws a \<^verbatim>\<open>TypeError\<close> exactly when some entry of the scan holds
  \<^verbatim>\<open>null\<close> or \<^verbatim>\<open>undefined\<close> and neither that entry nor an entry before it
  finds the limit reached; the lookup then does not resolve with a \<^verbatim>\<open>Map\<close>
  (the result \<open>Inl TypeError\<close>).

  In every other case the lookup resolves with a \<^verbatim>\<open>Map\<close>: its keys are the first
  \<open>limit\<close> distinct page ids of the scan, in scan order (all of them when the limit is
  \<^verbatim>\<open>Infinity\<close>), so they are distinct and at most \<open>limit\<close>; each page id maps to
  \<^verbatim>\<open>{latest: removeKeyType(key), ...meta}\<close> of its first occurrence in the scan;
  and the entries delivered are exactly those before which no entry found the limit
  reached. So the iteration is cancelled by the first entry that finds the limit
  reached, which is the entry after the one that brought the \<^verbatim>\<open>Map\<close> to
  \<open>limit\<close> page ids, and it is not cancelled when no entry follows.
\<close>

theorem reverseRangeLookup_first_distinct:
  fixes db :: "'n jsval db"
  defines "scan \<equiv> \<lambda>opts. createReadStream db (opts\<lparr>reverse := True\<rparr>)"
    and "seen \<equiv> \<lambda>opts j. length (first_occurrences (scanned_pageIds
          (take j (createReadStream db (opts\<lparr>reverse := True\<rparr>)))))"
  defines "throws \<equiv> \<lambda>limit opts. \<exists>i < length (scan opts).
          (snd (scan opts ! i) = Prim JNull \<or> snd (scan opts ! i) = Prim JUndefined) \<and>
          (\<forall>j \<le> i. \<not> limit_reached limit (seen opts j))"
  shows "scan opts = rev (filter (\<lambda>(key, value). in_bounds opts key) db) \<and>
    (throws limit opts \<longrightarrow> reverseRangeLookup db limit opts = Inl TypeError) \<and>
    (\<not> throws limit opts \<longrightarrow>
       (\<exists>data delivered.
          reverseRangeLookup db limit opts = Inr (data, delivered) \<and>
          map fst data = within_limit limit (first_occurrences (scanned_pageIds (scan opts))) \<and>
          distinct (map fst data) \<and>
          (\<forall>l. limit = Some l \<longrightarrow> Map_size data \<le> l) \<and>
          (\<forall>(pageId, obj) \<in> set data. first_recorded (scan opts) pageId obj) \<and>
          (\<forall>j. j < delivered \<longleftrightarrow>
             j < length (scan opts) \<and> (\<forall>j' < j. \<not> limit_reached limit (seen opts j')))))"
proof -
  have desc: "scan opts = rev (filter (\<lambda>(key, value). in_bounds opts key) db)"
    by (simp add: scan_def createReadStream_def in_bounds_def)
  have seen_eq: "size_after [] (scan opts) j = seen opts j" for j
    by (simp add: size_after_def seen_def scan_def)
  show ?thesis
  proof (cases "reverseRangeLookup db limit opts")
    case (Inl e)
    then have run: "reverseScan limit (scan opts) [] 0 = Inl e"
      by (simp add: reverseRangeLookup_def scan_def)
    from reverseScan_throws [OF run] have "e = TypeError" and "throws limit opts"
      unfolding throws_def seen_eq by simp_all
    with Inl desc show ?thesis by simp
  next
    case (Inr r)
    obtain data delivered where r: "r = (data, delivered)" by (cases r)
    with Inr have res: "reverseRangeLookup db limit opts = Inr (data, delivered)"
      by simp
    then have run: "reverseScan limit (scan opts) [] 0 = Inr (data, delivered)"
      by (simp add: reverseRangeLookup_def scan_def)
    from reverseScan_resolves [OF run] obtain h where h: "h \<le> length (scan opts)"
      and before: "\<forall>j < h. \<not> limit_reached limit (seen opts j)"
      and sound: "\<forall>i < h. snd (scan opts ! i) \<noteq> Prim JNull \<and>
          snd (scan opts ! i) \<noteq> Prim JUndefined"
      and stop: "h = length (scan opts) \<and> delivered = h \<or>
          h < length (scan opts) \<and> limit_reached limit (seen opts h) \<and> delivered = Suc h"
      unfolding seen_eq by auto
    have nothrow: "\<not> throws limit opts"
    proof
      assume "throws limit opts"
      then obtain i where i: "i < length (scan opts)"
        and bad: "snd (scan opts ! i) = Prim JNull \<or> snd (scan opts ! i) = Prim JUndefined"
        and open_: "\<forall>j \<le> i. \<not> limit_reached limit (seen opts j)"
        unfolding throws_def by blast
      from bad sound have "h \<le> i"
        by (meson not_le_imp_less)
      with i stop open_ show False by auto
    qed
    have keys: "map fst data =
        within_limit limit (first_occurrences (scanned_pageIds (scan opts)))"
      using reverseScan_keys [OF run] by simp
    have dist: "distinct (map fst data)"
      unfolding keys within_limit_def
      by (simp add: distinct_first_occurrences split: option.splits)
    have bound: "\<forall>l. limit = Some l \<longrightarrow> Map_size data \<le> l"
    proof (intro allI impI)
      fix l assume "limit = Some l"
      with keys have "map fst data = take l (first_occurrences (scanned_pageIds (scan opts)))"
        by (simp add: within_limit_def)
      then have "length (map fst data) \<le> l"
        by simp
      then show "Map_size data \<le> l"
        by (simp add: Map_size_def)
    qed
    have prov: "\<forall>(pageId, obj) \<in> set data. first_recorded (scan opts) pageId obj"
      using reverseScan_provenance [OF run] by auto
    have del: "j < delivered \<longleftrightarrow>
        j < length (scan opts) \<and> (\<forall>j' < j. \<not> limit_reached limit (seen opts j'))" for j
    proof
      assume "j < delivered"
      with stop h have "j < length (scan opts)" and "j \<le> h" by auto
      with before show "j < length (scan opts) \<and> (\<forall>j' < j. \<not> limit_reached limit (seen opts j'))"
        by simp
    next
      assume j: "j < length (scan opts) \<and> (\<forall>j' < j. \<not> limit_reached limit (seen opts j'))"
      from stop show "j < delivered"
      proof
        assume "h = length (scan opts) \<and> delivered = h"
        with j show ?thesis by simp
      next
        assume cut: "h < length (scan opts) \<and> limit_reached limit (seen opts h) \<and>
            delivered = Suc h"
        with j have "\<not> h < j" by blast
        with cut show ?thesis by simp
      qed
    qed
    from del have del': "\<forall>j. j < delivered \<longleftrightarrow>
        j < length (scan opts) \<and> (\<forall>j' < j. \<not> limit_reached limit (seen opts j'))"
      by blast
    from res keys dist bound prov del' have "\<exists>data delivered.
          reverseRangeLookup db limit opts = Inr (data, delivered) \<and>
          map fst data = within_limit limit (first_occurrences (scanned_pageIds (scan opts))) \<and>
          distinct (map fst data) \<and>
          (\<forall>l. limit = Some l \<longrightarrow> Map_size data \<le> l) \<and>
          (\<forall>(pageId, obj) \<in> set data. first_recorded (scan opts) pageId obj) \<and>
          (\<forall>j. j < delivered \<longleftrightarrow>
             j < length (scan opts) \<and> (\<forall>j' < j. \<not> limit_reached limit (seen opts j')))"
      by (intro exI [of _ data] exI [of _ delivered] conjI) assumption+
    with desc nothrow show ?thesis by simp
  qed
qed

lemma example_scan:
  "createReadStream example_visits (example_bounds\<lparr>reverse := True\<rparr>) =
     [(''visit/5'', Obj [(''pageId'', JStr ''a''), (''duration'', JNum 30)]),
      (''visit/4'', Prim (JStr ''a'')),
      (''visit/3'', Prim (JStr ''a'')),
      (''visit/2'', Prim (JStr ''b'')),
      (''visit/1'', Prim (JStr ''c''))]"
  by (simp add: createReadStream_def example_visits_def example_bounds_def in_bounds_def
      key_eval)

lemmas scan_eval =
  reverseRangeLookup_def example_scan limit_reached_def Map_size_def Map_has_def
  spread_def get_prop_def removeKeyType_def key_type_alternatives_def

lemma example_null_scan:
  "createReadStream example_null_visit (example_bounds\<lparr>reverse := True\<rparr>) =
     [(''visit/3'', Prim (JStr ''a'')),
      (''visit/2'', Prim (JStr ''b'')),
      (''visit/1'', Prim JNull)]"
  by (simp add: createReadStream_def example_null_visit_def example_bounds_def in_bounds_def
      key_eval)

lemmas null_scan_eval =
  reverseRangeLookup_def example_null_scan limit_reached_def Map_size_def Map_has_def
  spread_def get_prop_def removeKeyType_def key_type_alternatives_def

theorem reverseRangeLookup_first_distinct_witness:
  "reverseRangeLookup example_visits (Some 1) example_bounds =
     Inr ([(JStr ''a'', [(''latest'', JStr ''5''), (''duration'', JNum 30)])], 2) \<and>
   reverseRangeLookup example_null_visit (Some 2) example_bounds =
     Inr ([(JStr ''a'', [(''latest'', JStr ''3'')]), (JStr ''b'', [(''latest'', JStr ''2'')])],
          3) \<and>
   reverseRangeLookup example_null_visit None example_bounds = Inl TypeError"
proof -
  have sound: "\<not> (\<exists>i < length (createReadStream example_visits
        (example_bounds\<lparr>reverse := True\<rparr>)).
      (snd (createReadStream example_visits (example_bounds\<lparr>reverse := True\<rparr>) ! i) =
         Prim JNull \<or>
       snd (createReadStream example_visits (example_bounds\<lparr>reverse := True\<rparr>) ! i) =
         Prim JUndefined) \<and>
      (\<forall>j \<le> i. \<not> limit_reached (Some 1) (length (first_occurrences (scanned_pageIds
         (take j (createReadStream example_visits
            (example_bounds\<lparr>reverse := True\<rparr>))))))))"
    unfolding example_scan
    by (auto simp: less_Suc_eq numeral_eq_Suc)
  have run: "reverseRangeLookup example_visits (Some 1) example_bounds =
      Inr ([(JStr ''a'', [(''latest'', JStr ''5''), (''duration'', JNum 30)])], 2)"
    by (simp add: scan_eval)
  from reverseRangeLookup_first_distinct
      [where db = example_visits and limit = "Some 1" and opts = example_bounds,
       THEN conjunct2, THEN conjunct2, THEN mp, OF sound]
  obtain data delivered
    where "reverseRangeLookup example_visits (Some 1) example_bounds = Inr (data, delivered)"
      and "\<forall>l. Some 1 = Some l \<longrightarrow> Map_size data \<le> l"
    by blast
  with run have first: "reverseRangeLookup example_visits (Some 1) example_bounds =
      Inr ([(JStr ''a'', [(''latest'', JStr ''5''), (''duration'', JNum 30)])], 2)"
    by simp
  have cut: "\<not> (\<exists>i < length (createReadStream example_null_visit
        (example_bounds\<lparr>reverse := True\<rparr>)).
      (snd (createReadStream example_null_visit (example_bounds\<lparr>reverse := True\<rparr>) ! i) =
         Prim JNull \<or>
       snd (createReadStream example_null_visit (example_bounds\<lparr>reverse := True\<rparr>) ! i) =
         Prim JUndefined) \<and>
      (\<forall>j \<le> i. \<not> limit_reached (Some 2) (length (first_occurrences (scanned_pageIds
         (take j (createReadStream example_null_visit
            (example_bounds\<lparr>reverse := True\<rparr>))))))))"
    unfolding example_null_scan
    by (auto simp: less_Suc_eq numeral_eq_Suc limit_reached_def scanned_pageIds_def
        pageId_of_def intro: exI [of _ 2])
  have run2: "reverseRangeLookup example_null_visit (Some 2) example_bounds =
      Inr ([(JStr ''a'', [(''latest'', JStr ''3'')]), (JStr ''b'', [(''latest'', JStr ''2'')])],
           3)"
    by (simp add: null_scan_eval)
  from reverseRangeLookup_first_distinct
      [where db = example_null_visit and limit = "Some 2" and opts = example_bounds,
       THEN conjunct2, THEN conjunct2, THEN mp, OF cut]
  obtain data2 delivered2
    where "reverseRangeLookup example_null_visit (Some 2) example_bounds =
        Inr (data2, delivered2)"
      and "\<forall>l. Some 2 = Some l \<longrightarrow> Map_size data2 \<le> l"
    by blast
  with run2 have second: "reverseRangeLookup example_null_visit (Some 2) example_bounds =
      Inr ([(JStr ''a'', [(''latest'', JStr ''3'')]), (JStr ''b'', [(''latest'', JStr ''2'')])],
           3)"
    by simp
  have thrown: "\<exists>i < length (createReadStream example_null_visit
        (example_bounds\<lparr>reverse := True\<rparr>)).
      (snd (createReadStream example_null_visit (example_bounds\<lparr>reverse := True\<rparr>) ! i) =
         Prim JNull \<or>
       snd (createReadStream example_null_visit (example_bounds\<lparr>reverse := True\<rparr>) ! i) =
         Prim JUndefined) \<and>
      (\<forall>j \<le> i. \<not> limit_reached None (length (first_occurrences (scanned_pageIds
         (take j (createReadStream example_null_visit
            (example_bounds\<lparr>reverse := True\<rparr>)))))))"
    unfolding example_null_scan
    by (intro exI [of _ 2]) (simp add: limit_reached_def)
  from reverseRangeLookup_first_distinct
      [where db = example_null_visit and limit = None and opts = example_bounds,
       THEN conjunct2, THEN conjunct1, THEN mp, OF thrown]
  have third: "reverseRangeLookup example_null_visit None example_bounds = Inl TypeError" .
  from first second third show ?thesis by simp
qed

text \<open>
  C2, as stated, fails: with five visits of three pages and limit 2, the first four
  entries of the descending scan already hold two distinct page ids, yet the stream
  delivers all five entries before the lookup resolves.
\<close>

theorem reverseRangeLookup_late_cancel_counterexample:
  "reverseRangeLookup example_visits (Some 2) example_bounds =
     Inr ([(JStr ''a'', [(''latest'', JStr ''5''), (''duration'', JNum 30)]),
           (JStr ''b'', [(''latest'', JStr ''2'')])], 5) \<and>
   length (createReadStream example_visits (example_bounds\<lparr>reverse := True\<rparr>)) = 5 \<and>
   length (first_occurrences (scanned_pageIds
     (take 4 (createReadStream example_visits (example_bounds\<lparr>reverse := True\<rparr>))))) = 2"
  by (simp add: scan_eval scanned_pageIds_def pageId_of_def)

section \<open>Properties of the point lookups\<close>

text \<open>
  C4 (as amended). For every page id, \<open>fetchExistingPage\<close> point-gets the store key
  that is the page id as given, without adding a prefix. When the store reports that key
  as not found, or holds \<^verbatim>\<open>null\<close> or \<^verbatim>\<open>undefined\<close> under it, the call
  fails with an error whose message carries the page id; any other error of the store is
  passed on; otherwise the stored record is returned.
\<close>

theorem fetchExistingPage_gets_given_key:
  "fetchExistingPage get pageId =
     (case get pageId False of
        Inl error \<Rightarrow>
          if error = NotFoundError then Inl (JsError (no_document_message pageId))
          else Inl error
      | Inr doc \<Rightarrow>
          if doc = Prim JNull \<or> doc = Prim JUndefined
          then Inl (JsError (no_document_message pageId))
          else Inr doc)"
  by (simp add: fetchExistingPage_def initSingleLookup_def given_or_default_def defLookupOpts_def asBuffer_of_def
      defaultValue_of_def notFound_def loosely_null_def split: sum.splits)

theorem fetchExistingPage_gets_given_key_witness:
  "fetchExistingPage (get_from example_pages) ''page/x'' =
     Inr (Obj [(''url'', JStr ''example.com'')]) \<and>
   fetchExistingPage (get_from example_pages) ''missing'' =
     Inl (JsError ''No document exists in reverse page index for the supplied page ID: missing'') \<and>
   fetchExistingPage (get_failing ''page/y'' example_pages) ''page/y'' = Inl (StoreError ''IO'')"
  using fetchExistingPage_gets_given_key [of "get_from example_pages" "''page/x''"]
    fetchExistingPage_gets_given_key [of "get_from example_pages" "''missing''"]
    fetchExistingPage_gets_given_key [of "get_failing ''page/y'' example_pages" "''page/y''"]
  by (simp add: get_from_def get_failing_def example_pages_def no_document_message_def)

text \<open>
  C4, as stated, fails: with a record stored under \<open>page/x\<close>, fetching the page id
  \<open>x\<close> gets the key \<open>x\<close> and fails.
\<close>

theorem fetchExistingPage_prefix_counterexample:
  "get_from example_pages (''page/'' @ ''x'') False = Inr (Obj [(''url'', JStr ''example.com'')]) \<and>
   fetchExistingPage (get_from example_pages) ''x'' =
     Inl (JsError ''No document exists in reverse page index for the supplied page ID: x'')"
  by (simp add: fetchExistingPage_def initSingleLookup_def given_or_default_def defLookupOpts_def asBuffer_of_def
      defaultValue_of_def notFound_def loosely_null_def get_from_def example_pages_def
      no_document_message_def)

lemma Map_fold_fun_kept:
  "map_of m k = Some (g k) \<Longrightarrow>
   map_of (fold (\<lambda>(k, v) m. Map_set m k v) (map (\<lambda>key. (key, g key)) ks) m) k = Some (g k)"
  by (induction ks arbitrary: m) (simp_all add: map_of_Map_set)

lemma Map_fold_fun:
  "k \<in> set ks \<Longrightarrow>
   map_of (fold (\<lambda>(k, v) m. Map_set m k v) (map (\<lambda>key. (key, g key)) ks) m) k = Some (g k)"
proof (induction ks arbitrary: m)
  case Nil
  then show ?case by simp
next
  case (Cons a ks)
  show ?case
  proof (cases "a = k")
    case True
    then show ?thesis
      by (simp add: Map_fold_fun_kept map_of_Map_set)
  next
    case False
    with Cons show ?thesis by simp
  qed
qed

lemma Map_new_fun:
  "k \<in> set ks \<Longrightarrow> Map_get (Map_new (map (\<lambda>key. (key, g key)) ks)) k = Some (g k)"
  by (simp add: Map_new_def Map_get_def Map_fold_fun)

lemma lookup_entries_resolves:
  "\<forall>key \<in> set ks. \<exists>v. f key = Inr v \<Longrightarrow>
   lookup_entries c f ks = Inr (map (\<lambda>key. (key, projr (f key))) ks)"
  by (induction ks) auto

lemma lookup_entries_rejects:
  "\<exists>key \<in> set ks. \<exists>error. f key = Inl error \<Longrightarrow>
   \<exists>key \<in> set ks. \<exists>error. f key = Inl error \<and> lookup_entries c f ks = Inl error"
proof (induction ks)
  case Nil
  then show ?case by simp
next
  case (Cons a ks)
  show ?case
  proof (cases "f a")
    case (Inl error)
    then show ?thesis by auto
  next
    case (Inr v)
    with Cons.prems have "\<exists>key \<in> set ks. \<exists>error. f key = Inl error"
      by auto
    from Cons.IH [OF this] Inr show ?thesis
      by auto
  qed
qed

lemma defaultValue_of_defined: "defaultValue_of opts \<noteq> Prim JUndefined"
  by (simp add: defaultValue_of_def split: option.splits)

lemma initSingleLookup_eq:
  "initSingleLookup get opts key =
     (case get key (asBuffer_of (given_or_default opts)) of
        Inr v \<Rightarrow> Inr v
      | Inl error \<Rightarrow>
          if error = NotFoundError then Inr (defaultValue_of (given_or_default opts))
          else Inl error)"
  by (simp add: initSingleLookup_def notFound_def Let_def split: sum.splits)

lemma resolved_opts:
  "asBuffer_of (given_or_default (Some \<lparr>defaultValue = Some (defaultValue_of opts),
      asBuffer = Some (asBuffer_of opts), concurrency = None\<rparr>)) = asBuffer_of opts"
  "defaultValue_of (given_or_default (Some \<lparr>defaultValue = Some (defaultValue_of opts),
      asBuffer = Some (asBuffer_of opts), concurrency = None\<rparr>)) = defaultValue_of opts"
  using defaultValue_of_defined [of opts]
  by (simp_all add: given_or_default_def asBuffer_of_def defaultValue_of_def)

lemma initLookupByKeys_resolved_opts:
  "((\<forall>key \<in> set ks. \<forall>error.
        get key (asBuffer_of (given_or_default opts)) = Inl error \<longrightarrow> error = NotFoundError) \<longrightarrow>
      (\<exists>m. initLookupByKeys get opts (KeyArray ks) = Inr m \<and>
           set (map fst m) = set ks \<and> distinct (map fst m) \<and>
           (\<forall>key \<in> set ks.
              Map_get m key =
                Some (case get key (asBuffer_of (given_or_default opts)) of
                        Inr v \<Rightarrow> v
                      | Inl error \<Rightarrow> defaultValue_of (given_or_default opts))))) \<and>
   ((\<exists>key \<in> set ks. \<exists>error.
        get key (asBuffer_of (given_or_default opts)) = Inl error \<and> error \<noteq> NotFoundError) \<longrightarrow>
      (\<exists>key \<in> set ks. \<exists>error.
         get key (asBuffer_of (given_or_default opts)) = Inl error \<and> error \<noteq> NotFoundError \<and>
         initLookupByKeys get opts (KeyArray ks) = Inl error)) \<and>
   initLookupByKeys get opts (SingleKey key) =
     (case get key (asBuffer_of (given_or_default opts)) of
        Inr v \<Rightarrow> Inr [(key, v)]
      | Inl error \<Rightarrow>
          if error = NotFoundError then Inr [(key, defaultValue_of (given_or_default opts))]
          else Inl error)"
proof -
  let ?ab = "asBuffer_of (given_or_default opts)"
  let ?dv = "defaultValue_of (given_or_default opts)"
  let ?single = "initSingleLookup get
      (Some \<lparr>defaultValue = Some ?dv, asBuffer = Some ?ab, concurrency = None\<rparr>)"
  have single: "?single k =
      (case get k ?ab of
         Inr v \<Rightarrow> Inr v
       | Inl error \<Rightarrow> if error = NotFoundError then Inr ?dv else Inl error)" for k
    by (simp only: initSingleLookup_eq resolved_opts)
  have array: "initLookupByKeys get opts (KeyArray ks) =
      (case lookup_entries (concurrency_of (given_or_default opts)) ?single ks of
         Inl error \<Rightarrow> Inl error
       | Inr entries \<Rightarrow> Inr (Map_new entries))"
    by (simp add: initLookupByKeys_def Let_def)
  have found: "\<exists>m. initLookupByKeys get opts (KeyArray ks) = Inr m \<and>
           set (map fst m) = set ks \<and> distinct (map fst m) \<and>
           (\<forall>key \<in> set ks.
              Map_get m key =
                Some (case get key ?ab of Inr v \<Rightarrow> v | Inl error \<Rightarrow> ?dv))"
    if tolerant: "\<forall>key \<in> set ks. \<forall>error. get key ?ab = Inl error \<longrightarrow> error = NotFoundError"
  proof -
    have value_of: "?single k = Inr (case get k ?ab of Inr v \<Rightarrow> v | Inl error \<Rightarrow> ?dv)"
      if "k \<in> set ks" for k
      using tolerant that by (cases "get k ?ab") (auto simp: single)
    then have "\<forall>k \<in> set ks. \<exists>v. ?single k = Inr v"
      by blast
    then have entries: "lookup_entries (concurrency_of (given_or_default opts)) ?single ks =
        Inr (map (\<lambda>k. (k, projr (?single k))) ks)"
      by (rule lookup_entries_resolves)
    let ?m = "Map_new (map (\<lambda>k. (k, projr (?single k))) ks)"
    have res: "initLookupByKeys get opts (KeyArray ks) = Inr ?m"
      by (simp add: array entries)
    have keys: "set (map fst ?m) = set ks"
      unfolding Map_new_keys by (simp add: comp_def)
    have dist: "distinct (map fst ?m)"
      by (rule Map_new_distinct)
    have vals: "\<forall>k \<in> set ks.
        Map_get ?m k = Some (case get k ?ab of Inr v \<Rightarrow> v | Inl error \<Rightarrow> ?dv)"
    proof
      fix k assume mem: "k \<in> set ks"
      then have "Map_get ?m k = Some (projr (?single k))"
        by (rule Map_new_fun)
      with value_of [OF mem] show
        "Map_get ?m k = Some (case get k ?ab of Inr v \<Rightarrow> v | Inl error \<Rightarrow> ?dv)"
        by simp
    qed
    from res keys dist vals show ?thesis by blast
  qed
  have failed: "\<exists>key \<in> set ks. \<exists>error.
         get key ?ab = Inl error \<and> error \<noteq> NotFoundError \<and>
         initLookupByKeys get opts (KeyArray ks) = Inl error"
    if broken: "\<exists>key \<in> set ks. \<exists>error. get key ?ab = Inl error \<and> error \<noteq> NotFoundError"
  proof -
    from broken obtain k0 error0 where "k0 \<in> set ks"
      and "get k0 ?ab = Inl error0" and "error0 \<noteq> NotFoundError"
      by blast
    then have "k0 \<in> set ks" and "?single k0 = Inl error0"
      by (simp_all add: single)
    then have "\<exists>key \<in> set ks. \<exists>error. ?single key = Inl error"
      by blast
    from lookup_entries_rejects [OF this] obtain k error where
      mem: "k \<in> set ks" and rej: "?single k = Inl error"
      and all: "lookup_entries (concurrency_of (given_or_default opts)) ?single ks = Inl error"
      by blast
    from rej have "get k ?ab = Inl error \<and> error \<noteq> NotFoundError"
      by (cases "get k ?ab") (auto simp: single split: if_splits)
    moreover from all have "initLookupByKeys get opts (KeyArray ks) = Inl error"
      by (simp add: array)
    ultimately show ?thesis using mem by blast
  qed
  have one: "initLookupByKeys get opts (SingleKey key) =
     (case get key ?ab of
        Inr v \<Rightarrow> Inr [(key, v)]
      | Inl error \<Rightarrow> if error = NotFoundError then Inr [(key, ?dv)] else Inl error)"
    by (cases "get key ?ab") (simp_all add: initLookupByKeys_def Let_def single Map_new_def)
  from found failed one show ?thesis by blast
qed

lemma options_resolved:
  "defaultValue_of (given_or_default opts) =
     (case opts of
        None \<Rightarrow> Prim JNull
      | Some given \<Rightarrow>
          (case defaultValue given of
             None \<Rightarrow> Prim JNull
           | Some v \<Rightarrow> if v = Prim JUndefined then Prim JNull else v))"
  "asBuffer_of (given_or_default opts) =
     (case opts of
        None \<Rightarrow> False
      | Some given \<Rightarrow> (case asBuffer given of None \<Rightarrow> False | Some b \<Rightarrow> b))"
  by (simp_all add: given_or_default_def defLookupOpts_def defaultValue_of_def asBuffer_of_def
      split: option.splits)

text \<open>
  C5. For every array of requested keys: when the store fails on none of them other than
  by not-found, the batched lookup resolves with a \<^verbatim>\<open>Map\<close> whose keys are
  exactly the requested keys, each mapped to its stored value, or to the default value
  when the store reports it not found; when the store fails on some key with another
  error, the lookup fails with such an error of one of the requested keys. For a single
  key the result is the one-entry \<^verbatim>\<open>Map\<close> of the single lookup, or its error,
  and the single lookup itself returns the stored value, the default value on not-found,
  and any other error as it is. The default value is \<^verbatim>\<open>null\<close> when no options
  are given, when the options have no \<open>defaultValue\<close>, and when it is
  \<^verbatim>\<open>undefined\<close>; otherwise it is the \<open>defaultValue\<close> given.
\<close>

theorem initLookupByKeys_complete:
  fixes get :: "'n index_get" and opts :: "'n lookupOpts option"
  defines "fallback \<equiv>
     (case opts of
        None \<Rightarrow> Prim JNull
      | Some given \<Rightarrow>
          (case defaultValue given of
             None \<Rightarrow> Prim JNull
           | Some v \<Rightarrow> if v = Prim JUndefined then Prim JNull else v))"
    and "buffer \<equiv>
     (case opts of
        None \<Rightarrow> False
      | Some given \<Rightarrow> (case asBuffer given of None \<Rightarrow> False | Some b \<Rightarrow> b))"
  shows
  "((\<forall>key \<in> set ks. \<forall>error. get key buffer = Inl error \<longrightarrow> error = NotFoundError) \<longrightarrow>
      (\<exists>m. initLookupByKeys get opts (KeyArray ks) = Inr m \<and>
           set (map fst m) = set ks \<and> distinct (map fst m) \<and>
           (\<forall>key \<in> set ks.
              Map_get m key =
                Some (case get key buffer of Inr v \<Rightarrow> v | Inl error \<Rightarrow> fallback)))) \<and>
   ((\<exists>key \<in> set ks. \<exists>error. get key buffer = Inl error \<and> error \<noteq> NotFoundError) \<longrightarrow>
      (\<exists>key \<in> set ks. \<exists>error.
         get key buffer = Inl error \<and> error \<noteq> NotFoundError \<and>
         initLookupByKeys get opts (KeyArray ks) = Inl error)) \<and>
   initLookupByKeys get opts (SingleKey key) =
     (case get key buffer of
        Inr v \<Rightarrow> Inr [(key, v)]
      | Inl error \<Rightarrow> if error = NotFoundError then Inr [(key, fallback)] else Inl error) \<and>
   initSingleLookup get opts key =
     (case get key buffer of
        Inr v \<Rightarrow> Inr v
      | Inl error \<Rightarrow> if error = NotFoundError then Inr fallback else Inl error)"
  using initLookupByKeys_resolved_opts [of ks get opts key] initSingleLookup_eq [of get opts key]
  unfolding options_resolved fallback_def buffer_def by simp


theorem initLookupByKeys_complete_witness:
  "(\<exists>m. initLookupByKeys (get_from example_pages) None (KeyArray [''page/x'', ''page/z'']) =
        Inr m \<and>
      set (map fst m) = {''page/x'', ''page/z''} \<and>
      Map_get m ''page/x'' = Some (Obj [(''url'', JStr ''example.com'')]) \<and>
      Map_get m ''page/z'' = Some (Prim JNull)) \<and>
   initLookupByKeys (get_failing ''page/y'' example_pages) None
       (KeyArray [''page/x'', ''page/y'', ''page/z'']) =
     Inl (StoreError ''IO'') \<and>
   initLookupByKeys (get_from example_pages)
       (Some \<lparr>defaultValue = Some (Prim (JStr ''none'')), asBuffer = None,
              concurrency = Some 2\<rparr>)
       (SingleKey ''page/z'') =
     Inr [(''page/z'', Prim (JStr ''none''))] \<and>
   initLookupByKeys (get_from example_pages)
       (Some \<lparr>defaultValue = None, asBuffer = None, concurrency = None\<rparr>)
       (SingleKey ''page/z'') =
     Inr [(''page/z'', Prim JNull)] \<and>
   initLookupByKeys (get_from example_pages)
       (Some \<lparr>defaultValue = Some (Prim JUndefined), asBuffer = Some True,
              concurrency = None\<rparr>)
       (SingleKey ''page/z'') =
     Inr [(''page/z'', Prim JNull)] \<and>
   initSingleLookup (get_from example_pages) None ''page/z'' = Inr (Prim JNull)"
proof (intro conjI)
  let ?get = "get_from example_pages :: int index_get"
  let ?none = "None :: int lookupOpts option"
  let ?ks = "[''page/x'', ''page/z'']"
  note array = initLookupByKeys_complete [of ?ks ?get ?none "''page/z''", THEN conjunct1]
  have tolerant: "\<forall>key \<in> set ?ks. \<forall>error.
      ?get key (case ?none of None \<Rightarrow> False
                | Some given \<Rightarrow> (case asBuffer given of None \<Rightarrow> False | Some b \<Rightarrow> b)) =
        Inl error \<longrightarrow> error = NotFoundError"
    by (simp add: get_from_def example_pages_def)
  from array [THEN mp, OF tolerant]
  obtain m where res: "initLookupByKeys ?get ?none (KeyArray ?ks) = Inr m"
    and keys: "set (map fst m) = set ?ks"
    and vals: "\<forall>key \<in> set ?ks.
      Map_get m key =
        Some (case ?get key (case ?none of None \<Rightarrow> False
                | Some given \<Rightarrow> (case asBuffer given of None \<Rightarrow> False | Some b \<Rightarrow> b)) of
                Inr v \<Rightarrow> v
              | Inl error \<Rightarrow>
                  (case ?none of
                     None \<Rightarrow> Prim JNull
                   | Some given \<Rightarrow>
                       (case defaultValue given of
                          None \<Rightarrow> Prim JNull
                        | Some v \<Rightarrow> if v = Prim JUndefined then Prim JNull else v)))"
    by blast
  from vals have "Map_get m ''page/x'' = Some (Obj [(''url'', JStr ''example.com'')])"
    and "Map_get m ''page/z'' = Some (Prim JNull)"
    by (simp_all add: get_from_def example_pages_def)
  with res keys show "\<exists>m.
      initLookupByKeys (get_from example_pages) None (KeyArray [''page/x'', ''page/z'']) =
        Inr m \<and>
      set (map fst m) = {''page/x'', ''page/z''} \<and>
      Map_get m ''page/x'' = Some (Obj [(''url'', JStr ''example.com'')]) \<and>
      Map_get m ''page/z'' = Some (Prim (JNull :: int jsprim))"
    by auto
next
  let ?get = "get_failing ''page/y'' example_pages :: int index_get"
  let ?none = "None :: int lookupOpts option"
  let ?ks = "[''page/x'', ''page/y'', ''page/z'']"
  have broken: "\<exists>key \<in> set ?ks. \<exists>error.
      ?get key (case ?none of None \<Rightarrow> False
                | Some given \<Rightarrow> (case asBuffer given of None \<Rightarrow> False | Some b \<Rightarrow> b)) =
        Inl error \<and> error \<noteq> NotFoundError"
    by (simp add: get_failing_def)
  from initLookupByKeys_complete [of ?ks ?get ?none "''page/y''",
      THEN conjunct2, THEN conjunct1, THEN mp, OF broken]
  obtain key error where "key \<in> set ?ks"
    and "?get key (case ?none of None \<Rightarrow> False
                | Some given \<Rightarrow> (case asBuffer given of None \<Rightarrow> False | Some b \<Rightarrow> b)) =
        Inl error"
    and "error \<noteq> NotFoundError"
    and "initLookupByKeys ?get ?none (KeyArray ?ks) = Inl error"
    by blast
  then show "initLookupByKeys (get_failing ''page/y'' example_pages :: int index_get) None
       (KeyArray [''page/x'', ''page/y'', ''page/z'']) =
     Inl (StoreError ''IO'')"
    by (auto simp: get_failing_def get_from_def example_pages_def split: if_splits)
next
  let ?opts = "Some \<lparr>defaultValue = Some (Prim (JStr ''none'' :: int jsprim)), asBuffer = None,
              concurrency = Some 2\<rparr>"
  from initLookupByKeys_complete [of "[]" "get_from example_pages" ?opts "''page/z''",
      THEN conjunct2, THEN conjunct2, THEN conjunct1]
  show "initLookupByKeys (get_from example_pages) ?opts (SingleKey ''page/z'') =
     Inr [(''page/z'', Prim (JStr ''none''))]"
    by (simp add: get_from_def example_pages_def)
next
  let ?opts = "Some \<lparr>defaultValue = None :: int jsval option, asBuffer = None,
              concurrency = None\<rparr>"
  from initLookupByKeys_complete [of "[]" "get_from example_pages" ?opts "''page/z''",
      THEN conjunct2, THEN conjunct2, THEN conjunct1]
  show "initLookupByKeys (get_from example_pages) ?opts (SingleKey ''page/z'') =
     Inr [(''page/z'', Prim JNull)]"
    by (simp add: get_from_def example_pages_def)
next
  let ?opts = "Some \<lparr>defaultValue = Some (Prim (JUndefined :: int jsprim)),
              asBuffer = Some True, concurrency = None\<rparr>"
  from initLookupByKeys_complete [of "[]" "get_from example_pages" ?opts "''page/z''",
      THEN conjunct2, THEN conjunct2, THEN conjunct1]
  show "initLookupByKeys (get_from example_pages) ?opts (SingleKey ''page/z'') =
     Inr [(''page/z'', Prim JNull)]"
    by (simp add: get_from_def example_pages_def)
next
  from initLookupByKeys_complete
    [of "[]" "get_from example_pages :: int index_get" None "''page/z''",
      THEN conjunct2, THEN conjunct2, THEN conjunct2]
  show "initSingleLookup (get_from example_pages :: int index_get) None ''page/z'' =
     Inr (Prim JNull)"
    by (simp add: get_from_def example_pages_def)
qed


section \<open>Properties of the document augmentation\<close>

lemma array_at_last: "xs \<noteq> [] \<Longrightarrow> array_at xs (int (length xs) - 1) = Some (last xs)"
  by (simp add: array_at_def last_conv_nth nat_diff_distrib')

lemma get_prop_Map_set_other:
  "name \<noteq> k \<Longrightarrow> get_prop (Map_set obj k v) name = get_prop obj name"
  by (simp add: get_prop_def map_of_Map_set)

text \<open>
  C10. \<open>augmentIndexLookupDoc\<close> is defined only for a document with a visit or a bookmark:
  when the set of visits is not empty, the result is the document with \<open>latest\<close> set to the
  namespace-stripped last visit, whatever the bookmarks are; when it is empty and the set
  of bookmarks is not, with \<open>latest\<close> set to the namespace-stripped last bookmark; when
  both are empty the call fails with a \<^verbatim>\<open>TypeError\<close> and produces no document.
  A result is a copy of the document: its visits, bookmarks and every property other than
  \<open>latest\<close> are those of the document.
\<close>

theorem augmentIndexLookupDoc_latest:
  "(visits doc \<noteq> [] \<longrightarrow>
      augmentIndexLookupDoc doc =
        Inr (doc\<lparr>props := Map_set (props doc) ''latest''
                     (JStr (removeKeyType (last (visits doc))))\<rparr>)) \<and>
   (visits doc = [] \<and> bookmarks doc \<noteq> [] \<longrightarrow>
      augmentIndexLookupDoc doc =
        Inr (doc\<lparr>props := Map_set (props doc) ''latest''
                     (JStr (removeKeyType (last (bookmarks doc))))\<rparr>)) \<and>
   (visits doc = [] \<and> bookmarks doc = [] \<longrightarrow> augmentIndexLookupDoc doc = Inl TypeError) \<and>
   (\<forall>doc'. augmentIndexLookupDoc doc = Inr doc' \<longrightarrow>
      visits doc' = visits doc \<and> bookmarks doc' = bookmarks doc \<and>
      (\<forall>name. name \<noteq> ''latest'' \<longrightarrow> get_prop (props doc') name = get_prop (props doc) name))"
proof (intro conjI impI allI)
  assume "visits doc \<noteq> []"
  then show "augmentIndexLookupDoc doc =
      Inr (doc\<lparr>props := Map_set (props doc) ''latest''
                   (JStr (removeKeyType (last (visits doc))))\<rparr>)"
    by (simp add: augmentIndexLookupDoc_def getLatestVisitOrBookmark_def array_at_last)
next
  assume "visits doc = [] \<and> bookmarks doc \<noteq> []"
  then show "augmentIndexLookupDoc doc =
      Inr (doc\<lparr>props := Map_set (props doc) ''latest''
                   (JStr (removeKeyType (last (bookmarks doc))))\<rparr>)"
    by (simp add: augmentIndexLookupDoc_def getLatestVisitOrBookmark_def array_at_last)
next
  assume "visits doc = [] \<and> bookmarks doc = []"
  then show "augmentIndexLookupDoc doc = Inl TypeError"
    by (simp add: augmentIndexLookupDoc_def getLatestVisitOrBookmark_def array_at_def)
next
  fix doc' assume "augmentIndexLookupDoc doc = Inr doc'"
  then obtain key where doc': "doc' =
      doc\<lparr>props := Map_set (props doc) ''latest'' (JStr (removeKeyType key))\<rparr>"
    by (auto simp: augmentIndexLookupDoc_def split: option.splits)
  show "visits doc' = visits doc" by (simp add: doc')
  show "bookmarks doc' = bookmarks doc" by (simp add: doc')
  fix name :: string assume "name \<noteq> ''latest''"
  then show "get_prop (props doc') name = get_prop (props doc) name"
    by (simp add: doc' get_prop_Map_set_other)
qed

theorem augmentIndexLookupDoc_latest_witness:
  "visits example_doc \<noteq> [] \<and>
   augmentIndexLookupDoc example_doc =
     Inr (example_doc\<lparr>props := [(''url'', JStr ''example.com''), (''latest'', JStr ''1700'')]\<rparr>) \<and>
   augmentIndexLookupDoc (example_doc\<lparr>visits := []\<rparr>) =
     Inr (example_doc\<lparr>visits := [],
            props := [(''url'', JStr ''example.com''), (''latest'', JStr ''1900'')]\<rparr>) \<and>
   augmentIndexLookupDoc (example_doc\<lparr>visits := [], bookmarks := []\<rparr>) = Inl TypeError"
proof (intro conjI)
  show v: "visits example_doc \<noteq> []"
    by (simp add: example_doc_def)
  from augmentIndexLookupDoc_latest [of example_doc, THEN conjunct1, THEN mp, OF v]
  show "augmentIndexLookupDoc example_doc =
     Inr (example_doc\<lparr>props := [(''url'', JStr ''example.com''), (''latest'', JStr ''1700'')]\<rparr>)"
    by (simp add: example_doc_def removeKeyType_def key_type_alternatives_def)
  from augmentIndexLookupDoc_latest [of "example_doc\<lparr>visits := []\<rparr>",
      THEN conjunct2, THEN conjunct1]
  show "augmentIndexLookupDoc (example_doc\<lparr>visits := []\<rparr>) =
     Inr (example_doc\<lparr>visits := [],
            props := [(''url'', JStr ''example.com''), (''latest'', JStr ''1900'')]\<rparr>)"
    by (simp add: example_doc_def removeKeyType_def key_type_alternatives_def)
  from augmentIndexLookupDoc_latest [of "example_doc\<lparr>visits := [], bookmarks := []\<rparr>",
      THEN conjunct2, THEN conjunct2, THEN conjunct1]
  show "augmentIndexLookupDoc (example_doc\<lparr>visits := [], bookmarks := []\<rparr>) = Inl TypeError"
    by simp
qed

section \<open>Properties of score boosting\<close>







section \<open>Properties of the write serializer\<close>

lemma one_by_one_snoc:
  "one_by_one s (cs @ [(fn, args)]) =
     (case one_by_one s cs of
        (s', outcomes) \<Rightarrow>
          (case finish_fn fn (begin_fn fn args s') s' of
             (s'', outcome) \<Rightarrow> (s'', outcomes @ [outcome_of outcome])))"
  by (induction s cs rule: one_by_one.induct) (auto split: prod.splits)

lemma inv_idle: "serializer_inv s0 (idle s0)"
  by (simp add: serializer_inv_def idle_def)

lemma inv_call:
  assumes "serializer_inv s0 q"
  shows "serializer_inv s0 (makeIndexFnConcSafe fn args q)"
proof -
  let ?n = "length (settled q)"
  from assms have le: "?n \<le> length (calls q)"
    and ids: "map promise (map fst (in_flight q) @ pending q) = [?n ..< length (calls q)]"
    and ops: "map (\<lambda>j. (job_fn j, job_args j)) (map fst (in_flight q) @ pending q) =
        drop ?n (calls q)"
    and rest: "length (in_flight q) \<le> 1" "map fst (settled q) = [0 ..< ?n]"
      "one_by_one s0 (take ?n (calls q)) = (shared q, map snd (settled q))"
      "\<forall>(j, l) \<in> set (in_flight q). l = begin_fn (job_fn j) (job_args j) (shared q)"
    by (simp_all add: serializer_inv_def)
  from le have upt: "[?n ..< Suc (length (calls q))] = [?n ..< length (calls q)] @ [length (calls q)]"
    by simp
  show ?thesis
    unfolding serializer_inv_def makeIndexFnConcSafe_def
    using le ids ops rest upt by simp
qed

lemma inv_start:
  assumes "serializer_inv s0 q"
  shows "serializer_inv s0 (start_next q)"
proof (cases "pending q")
  case Nil
  with assms show ?thesis by (simp add: start_next_def)
next
  case (Cons j js)
  show ?thesis
  proof (cases "in_flight q = []")
    case True
    with Cons assms show ?thesis
      by (simp add: start_next_def serializer_inv_def)
  next
    case False
    with Cons assms show ?thesis by (simp add: start_next_def)
  qed
qed

lemma inv_settle:
  assumes "serializer_inv s0 q"
  shows "serializer_inv s0 (settle q)"
proof (cases "in_flight q")
  case Nil
  with assms show ?thesis by (simp add: settle_def)
next
  case (Cons x others)
  obtain j l where x: "x = (j, l)" by (cases x)
  let ?n = "length (settled q)"
  from assms Cons have others: "others = []"
    by (simp add: serializer_inv_def)
  from assms Cons x others have le: "?n \<le> length (calls q)"
    and ids: "promise j # map promise (pending q) = [?n ..< length (calls q)]"
    and ops: "(job_fn j, job_args j) # map (\<lambda>j. (job_fn j, job_args j)) (pending q) =
        drop ?n (calls q)"
    and order: "map fst (settled q) = [0 ..< ?n]"
    and serial: "one_by_one s0 (take ?n (calls q)) = (shared q, map snd (settled q))"
    and snapshot: "l = begin_fn (job_fn j) (job_args j) (shared q)"
    by (simp_all add: serializer_inv_def)
  from ids have lt: "?n < length (calls q)"
    by (cases "?n < length (calls q)") simp_all
  with ids have id: "promise j = ?n"
    and ids': "map promise (pending q) = [Suc ?n ..< length (calls q)]"
    by (simp_all add: upt_conv_Cons)
  from lt ops have nth: "calls q ! ?n = (job_fn j, job_args j)"
    and ops': "map (\<lambda>j. (job_fn j, job_args j)) (pending q) = drop (Suc ?n) (calls q)"
    by (simp_all add: Cons_nth_drop_Suc [symmetric])
  from lt nth have take: "take (Suc ?n) (calls q) = take ?n (calls q) @ [(job_fn j, job_args j)]"
    by (simp add: take_Suc_conv_app_nth)
  obtain s' outcome where fin: "finish_fn (job_fn j) l (shared q) = (s', outcome)"
    by (cases "finish_fn (job_fn j) l (shared q)")
  have serial': "one_by_one s0 (take (Suc ?n) (calls q)) =
      (s', map snd (settled q) @ [outcome_of outcome])"
    using serial fin snapshot by (simp add: take one_by_one_snoc)
  have result: "settle q =
      q\<lparr>in_flight := [], shared := s',
        settled := settled q @ [(?n, outcome_of outcome)]\<rparr>"
    using Cons x others fin id
    by (cases outcome) (simp_all add: settle_def outcome_of_def)
  show ?thesis
    unfolding result serializer_inv_def
    using lt ids' ops' order serial' by simp
qed

lemma inv_step: "serializer_inv s0 q \<Longrightarrow> serializer_inv s0 (step q event)"
  by (cases event) (simp_all add: inv_call inv_start inv_settle)

lemma run_snoc: "run s0 (events @ [event]) = step (run s0 events) event"
  by (simp add: run_def)

lemma run_append:
  "run s0 (events @ later) = fold (\<lambda>event q. step q event) later (run s0 events)"
  by (simp add: run_def)

lemma inv_run: "serializer_inv s0 (run s0 events)"
proof (induction events rule: rev_induct)
  case Nil
  then show ?case by (simp add: run_def inv_idle)
next
  case (snoc event events)
  then show ?case by (simp only: run_snoc inv_step)
qed


lemma calls_step: "calls (step q event) = calls q @ submitted [event]"
  by (cases event)
    (auto simp: makeIndexFnConcSafe_def start_next_def settle_def
      split: list.splits prod.splits sum.splits)

lemma submitted_append: "submitted (xs @ ys) = submitted xs @ submitted ys"
  by (induction xs rule: submitted.induct) simp_all

lemma calls_run: "calls (run s0 events) = submitted events"
proof (induction events rule: rev_induct)
  case Nil
  then show ?case by (simp add: run_def idle_def)
next
  case (snoc event events)
  then show ?case
    by (simp only: run_snoc calls_step submitted_append)
qed

lemma settle_in_flight:
  assumes "in_flight q = (j, l) # others"
  shows "length (settled (settle q)) = Suc (length (settled q))"
    and "calls (settle q) = calls q"
  using assms by (auto simp: settle_def split: prod.splits sum.splits)

lemma work_once:
  assumes "serializer_inv s0 q"
  shows "length (settled (settle (start_next q))) =
      min (length (calls q)) (Suc (length (settled q)))"
    and "calls (settle (start_next q)) = calls q"
proof -
  let ?n = "length (settled q)"
  from assms have le: "?n \<le> length (calls q)"
    and ids: "map promise (map fst (in_flight q) @ pending q) = [?n ..< length (calls q)]"
    by (simp_all add: serializer_inv_def)
  from ids have count: "length (in_flight q) + length (pending q) = length (calls q) - ?n"
    by (metis length_append length_map length_upt)
  have "length (settled (settle (start_next q))) =
      min (length (calls q)) (Suc (length (settled q))) \<and>
      calls (settle (start_next q)) = calls q"
  proof (cases "in_flight q")
    case (Cons x others)
    obtain j l where "x = (j, l)" by (cases x)
    with Cons have fl: "in_flight q = (j, l) # others" by simp
    then have same: "start_next q = q"
      by (simp add: start_next_def split: list.splits)
    from fl count have "?n < length (calls q)" by simp
    with settle_in_flight [OF fl] same show ?thesis by simp
  next
    case Nil
    show ?thesis
    proof (cases "pending q")
      case (Cons j js)
      with Nil have started: "in_flight (start_next q) =
          (j, begin_fn (job_fn j) (job_args j) (shared q)) # []"
        and kept: "settled (start_next q) = settled q" "calls (start_next q) = calls q"
        by (simp_all add: start_next_def)
      from Cons count have "?n < length (calls q)" by simp
      with settle_in_flight [OF started] kept show ?thesis by simp
    next
      case empty: Nil
      with Nil have "settle (start_next q) = q"
        by (simp add: start_next_def settle_def)
      moreover from Nil empty count le have "length (calls q) = ?n" by simp
      ultimately show ?thesis by simp
    qed
  qed
  then show "length (settled (settle (start_next q))) =
      min (length (calls q)) (Suc (length (settled q)))"
    and "calls (settle (start_next q)) = calls q"
    by simp_all
qed

lemma work_many:
  assumes "serializer_inv s0 q"
  shows "serializer_inv s0 (fold (\<lambda>event q. step q event) (drain k) q) \<and>
    length (settled (fold (\<lambda>event q. step q event) (drain k) q)) =
      min (length (calls q)) (length (settled q) + k) \<and>
    calls (fold (\<lambda>event q. step q event) (drain k) q) = calls q"
  using assms
proof (induction k arbitrary: q)
  case 0
  then show ?case by (simp add: drain_def serializer_inv_def)
next
  case (Suc k)
  let ?q = "settle (start_next q)"
  from Suc.prems have inv: "serializer_inv s0 ?q"
    by (intro inv_settle inv_start)
  have unfold: "fold (\<lambda>event q. step q event) (drain (Suc k)) q =
      fold (\<lambda>event q. step q event) (drain k) ?q"
    by (simp add: drain_def)
  from Suc.IH [OF inv] work_once [OF Suc.prems] show ?case
    unfolding unfold by (simp add: min_def)
qed


text \<open>
  C1. For all wrapped operations and every sequence of calls, starts and settlements:
  at most one invocation is in flight; every call is one unit of work on the one queue,
  and the calls settled, in flight and pending, in this order, are the calls in the
  order of submission; the callers' promises settle in the order of submission, each
  with the outcome (value or error) of its own invocation, and the shared state and the
  outcomes are those of running the settled calls one by one, so that no unit sees
  another one half done and a rejection reaches only its own caller; and from every such
  state, letting the queue work once per call leaves nothing in flight or pending and
  every call settled, whichever outcomes the units before it had.
\<close>

theorem write_serializer_single_flight:
  "length (in_flight (run s0 events)) \<le> 1 \<and>
   calls (run s0 events) = submitted events \<and>
   map fst (settled (run s0 events)) @
     map promise (map fst (in_flight (run s0 events)) @ pending (run s0 events)) =
     [0 ..< length (submitted events)] \<and>
   map (\<lambda>j. (job_fn j, job_args j))
       (map fst (in_flight (run s0 events)) @ pending (run s0 events)) =
     drop (length (settled (run s0 events))) (submitted events) \<and>
   one_by_one s0 (take (length (settled (run s0 events))) (submitted events)) =
     (shared (run s0 events), map snd (settled (run s0 events))) \<and>
   in_flight (run s0 (events @ drain (length (submitted events)))) = [] \<and>
   pending (run s0 (events @ drain (length (submitted events)))) = [] \<and>
   map fst (settled (run s0 (events @ drain (length (submitted events))))) =
     [0 ..< length (submitted events)] \<and>
   one_by_one s0 (submitted events) =
     (shared (run s0 (events @ drain (length (submitted events)))),
      map snd (settled (run s0 (events @ drain (length (submitted events))))))"
proof -
  let ?q = "run s0 events"
  let ?n = "length (settled ?q)"
  have calls: "calls ?q = submitted events"
    by (rule calls_run)
  have inv: "serializer_inv s0 ?q"
    by (rule inv_run)
  then have one: "length (in_flight ?q) \<le> 1"
    and le: "?n \<le> length (calls ?q)"
    and ids: "map promise (map fst (in_flight ?q) @ pending ?q) = [?n ..< length (calls ?q)]"
    and ops: "map (\<lambda>j. (job_fn j, job_args j)) (map fst (in_flight ?q) @ pending ?q) =
        drop ?n (calls ?q)"
    and order: "map fst (settled ?q) = [0 ..< ?n]"
    and serial: "one_by_one s0 (take ?n (calls ?q)) = (shared ?q, map snd (settled ?q))"
    by (simp_all add: serializer_inv_def)
  from le have "[0 ..< ?n] @ [?n ..< length (calls ?q)] = [0 ..< length (calls ?q)]"
    by (metis le0 upt_add_eq_append le_add_diff_inverse)
  with order ids have fifo: "map fst (settled ?q) @
      map promise (map fst (in_flight ?q) @ pending ?q) = [0 ..< length (calls ?q)]"
    by simp
  let ?k = "length (submitted events)"
  let ?d = "run s0 (events @ drain ?k)"
  have d: "?d = fold (\<lambda>event q. step q event) (drain ?k) ?q"
    by (rule run_append)
  from work_many [OF inv, of ?k] have inv': "serializer_inv s0 ?d"
    and all: "length (settled ?d) = length (calls ?q)"
    and same: "calls ?d = calls ?q"
    unfolding d using le by (simp_all add: calls)
  from inv' all same have "map promise (map fst (in_flight ?d) @ pending ?d) = []"
    and order': "map fst (settled ?d) = [0 ..< length (calls ?q)]"
    and serial': "one_by_one s0 (calls ?q) = (shared ?d, map snd (settled ?d))"
    by (simp_all add: serializer_inv_def)
  then have empty: "in_flight ?d = []" "pending ?d = []"
    by simp_all
  from one calls fifo ops serial empty order' serial' show ?thesis
    by (simp only: calls)
qed

lemma one_by_one_increments:
  "one_by_one s (replicate n (increment, ())) = (s + n, map Resolved [Suc s ..< Suc (s + n)])"
proof (induction n arbitrary: s)
  case 0
  then show ?case by simp
next
  case (Suc n)
  have "[Suc s ..< Suc (s + Suc n)] = Suc s # [Suc (Suc s) ..< Suc (Suc s + n)]"
    by (simp add: upt_conv_Cons)
  with Suc [of "Suc s"] show ?case
    by (simp add: increment_def outcome_of_def)
qed

lemma submitted_calls: "submitted (replicate n (Call fn args)) = replicate n (fn, args)"
  by (induction n) simp_all

theorem write_serializer_single_flight_witness:
  "shared (run 0 (replicate 100 (Call increment ()) @ drain 100)) = 100 \<and>
   map fst (settled (run 0 (replicate 100 (Call increment ()) @ drain 100))) = [0 ..< 100] \<and>
   map snd (settled (run 0 (replicate 100 (Call increment ()) @ drain 100))) =
     map Resolved [1 ..< 101] \<and>
   settled (run 0 ([Call increment (), Call failing (), Start, Call increment (), Settle]
            @ drain 3)) =
     [(0, Resolved 1), (1, Rejected ''failed''), (2, Resolved 2)]"
proof -
  let ?calls = "replicate 100 (Call increment ())"
  have n: "length (submitted ?calls) = 100"
    by (simp add: submitted_calls)
  from write_serializer_single_flight [of 0 ?calls]
  have order: "map fst (settled (run 0 (?calls @ drain 100))) = [0 ..< 100]"
    and serial: "one_by_one 0 (submitted ?calls) =
      (shared (run 0 (?calls @ drain 100)), map snd (settled (run 0 (?calls @ drain 100))))"
    unfolding n by blast+
  from serial have "shared (run 0 (?calls @ drain 100)) = 100"
    and "map snd (settled (run 0 (?calls @ drain 100))) = map Resolved [1 ..< 101]"
    by (simp_all add: submitted_calls one_by_one_increments)
  moreover have "settled (run 0
      ([Call increment (), Call failing (), Start, Call increment (), Settle] @ drain 3)) =
     [(0, Resolved 1), (1, Rejected ''failed''), (2, Resolved 2)]"
    by (simp add: run_def drain_def idle_def makeIndexFnConcSafe_def start_next_def
        settle_def increment_def failing_def numeral_3_eq_3)
  ultimately show ?thesis
    using order by simp
qed

end
